theory Spec2Isabelle
  imports Complex_Main "HOL-Library.Log_Nat"
begin

section \<open>The mind-map layout of \<^verbatim>\<open>src/components/mind-map.tsx\<close>\<close>

text \<open>
  The theory embeds the collapse-capable variant of
  \<^verbatim>\<open>generateMindMapNodesAndEdges\<close> and the \<^verbatim>\<open>onToggle\<close> updater of the
  \<^verbatim>\<open>MindMap\<close> component.

  \<^item> JavaScript numbers are IEEE 754 binary64 values, and the recursion is embedded
    twice. In \<open>generateMindMapNodesAndEdges\<close> the coordinates are of type \<^typ>\<open>real\<close> and the
    arithmetic is exact. That is what the program computes for the cursor, the heights and
    \<^verbatim>\<open>level * levelWidth\<close>, which are integers far below \<open>2 ^ 53\<close> in every layout that
    fits in memory; it is not what the program computes for the midpoint of line 124, which
    can need one more significand bit than its operands: from a nesting depth of about
    fifty on, the midpoint the program stores is a rounded one. In
    \<open>generateMindMapNodesAndEdges64\<close> every \<^verbatim>\<open>+\<close>, \<^verbatim>\<open>*\<close> and \<^verbatim>\<open>/\<close> of the source is
    the exact operation followed by the rounding \<open>binary64\<close>; the midpoint property is stated
    on this embedding. \<^verbatim>\<open>level\<close> and \<^verbatim>\<open>index\<close> are array depths and indices, modelled as
    \<^typ>\<open>nat\<close>.
  \<^item> The arrays \<^verbatim>\<open>nodes\<close> and \<^verbatim>\<open>edges\<close> are shared by all recursive calls and
    appended to in place; the model passes them in and returns them updated.
  \<^item> \<^verbatim>\<open>parentId: string | null\<close> is a \<^typ>\<open>string option\<close>; the tests
    \<^verbatim>\<open>parentId ? .. : ..\<close> and \<^verbatim>\<open>if (parentId)\<close> are JavaScript truthiness, under
    which both \<^verbatim>\<open>null\<close> and the empty string are false.
  \<^item> The constant fields of an emitted object (\<^verbatim>\<open>type\<close>, \<^verbatim>\<open>sourcePosition\<close>,
    \<^verbatim>\<open>targetPosition\<close>, the edge's \<^verbatim>\<open>className\<close>) and the callback \<^verbatim>\<open>onToggle\<close>,
    which is passed through unchanged, are left out of the records.
  \<^item> \<^verbatim>\<open>children?: MindMapData[]\<close> is an optional list; the field \<^verbatim>\<open>text\<close> is named
    \<open>data_text\<close>, the node's \<^verbatim>\<open>id\<close> is \<open>node_id\<close>, the edge's is \<open>edge_id\<close>, and
    \<^verbatim>\<open>position.x\<close>, \<^verbatim>\<open>position.y\<close> and the fields of \<^verbatim>\<open>data\<close> are fields of the node
    record.
  \<^item> The two spacing constants \<^verbatim>\<open>nodeHeight = 120\<close> and \<^verbatim>\<open>levelWidth = 300\<close> are
    local to the source function. The recursion takes them as its first two arguments,
    and \<open>mindMapLayout\<close>, the call made by the component, supplies the source's values.
\<close>

subsection \<open>Data\<close>

datatype MindMapData = MindMapData (data_text: string) (children: "MindMapData list option")

record LayoutNode =
  node_id :: string
  position_x :: real
  position_y :: real
  label :: string
  hasChildren :: bool
  isCollapsed :: bool
  className :: string

record LayoutEdge =
  edge_id :: string
  source :: string
  target :: string

definition nodeHeight :: real where
  "nodeHeight = 120"

definition levelWidth :: real where
  "levelWidth = 300"

subsection \<open>Template literals\<close>

text \<open>The decimal rendering of a non-negative integer, as \<^verbatim>\<open>`${index}`\<close> produces it.\<close>

definition digit :: "nat \<Rightarrow> char" where
  "digit d = ''0123456789'' ! d"

fun toString :: "nat \<Rightarrow> string" where
  "toString n = (if n < 10 then [digit n] else toString (n div 10) @ [digit (n mod 10)])"

declare toString.simps [simp del]

text \<open>Truthiness of a \<^verbatim>\<open>string | null\<close> value.\<close>

definition truthy :: "string option \<Rightarrow> bool" where
  "truthy s = (case s of None \<Rightarrow> False | Some v \<Rightarrow> v \<noteq> [])"

text \<open>Line 84: \<^verbatim>\<open>parentId ? `${parentId}-${index}` : "n0"\<close>.\<close>

definition nodeIdOf :: "string option \<Rightarrow> nat \<Rightarrow> string" where
  "nodeIdOf parentId index =
     (if truthy parentId then the parentId @ ''-'' @ toString index else ''n0'')"

text \<open>Line 90: \<^verbatim>\<open>!!data.children && data.children.length > 0\<close>.\<close>

definition has_children :: "MindMapData \<Rightarrow> bool" where
  "has_children data = (case children data of None \<Rightarrow> False | Some cs \<Rightarrow> length cs > 0)"

text \<open>
  Lines 116-121: \<^verbatim>\<open>nodes.find((n) => n.id === cid)?.position.y || yOffset\<close>. The
  first node with the id is taken; \<^verbatim>\<open>||\<close> falls back to \<^verbatim>\<open>yOffset\<close> when no node is
  found and also when the \<open>y\<close> found is the falsy number \<open>0\<close>.
\<close>

definition childY :: "LayoutNode list \<Rightarrow> string \<Rightarrow> real \<Rightarrow> real" where
  "childY nodes cid yOffset =
     (case find (\<lambda>n. node_id n = cid) nodes of
        None \<Rightarrow> yOffset
      | Some n \<Rightarrow> if position_y n = 0 then yOffset else position_y n)"

text \<open>The object pushed onto \<^verbatim>\<open>nodes\<close> (lines 127-135 and 153-161).\<close>

definition mkNode :: "string \<Rightarrow> nat \<Rightarrow> real \<Rightarrow> real \<Rightarrow> string \<Rightarrow> bool \<Rightarrow> bool \<Rightarrow> LayoutNode" where
  "mkNode nodeId level lw yv txt hc ic =
     \<lparr>node_id = nodeId, position_x = real level * lw, position_y = yv, label = txt,
      hasChildren = hc, isCollapsed = ic,
      className = ''custom-node level-'' @ toString level\<rparr>"

text \<open>The guarded push onto \<^verbatim>\<open>edges\<close> (lines 138-147 and 164-173).\<close>

definition pushEdge :: "string option \<Rightarrow> string \<Rightarrow> LayoutEdge list \<Rightarrow> LayoutEdge list" where
  "pushEdge parentId nodeId edges =
     (if truthy parentId
      then edges @ [\<lparr>edge_id = ''e'' @ the parentId @ ''-'' @ nodeId,
                     source = the parentId, target = nodeId\<rparr>]
      else edges)"

subsection \<open>The layout recursion\<close>

text \<open>
  \<open>generateMindMapNodesAndEdges nh lw data collapsedNodes parentId nodes edges level index yOffset\<close>
  returns the updated arrays and the height. \<open>forEachChild\<close> is the
  \<^verbatim>\<open>data.children!.forEach\<close> loop of lines 96-110; its state is the two arrays,
  \<^verbatim>\<open>currentY\<close> and \<^verbatim>\<open>childHeights\<close>, and \<open>childIndex\<close> counts the iterations.
\<close>

function generateMindMapNodesAndEdges ::
    "real \<Rightarrow> real \<Rightarrow> MindMapData \<Rightarrow> string set \<Rightarrow> string option \<Rightarrow> LayoutNode list \<Rightarrow>
     LayoutEdge list \<Rightarrow> nat \<Rightarrow> nat \<Rightarrow> real \<Rightarrow> LayoutNode list \<times> LayoutEdge list \<times> real"
  and forEachChild ::
    "real \<Rightarrow> real \<Rightarrow> MindMapData list \<Rightarrow> string set \<Rightarrow> string \<Rightarrow> LayoutNode list \<Rightarrow>
     LayoutEdge list \<Rightarrow> nat \<Rightarrow> nat \<Rightarrow> real \<Rightarrow> real list \<Rightarrow>
     LayoutNode list \<times> LayoutEdge list \<times> real \<times> real list"
where
  "generateMindMapNodesAndEdges nh lw data collapsedNodes parentId nodes edges level index yOffset =
     (let nodeId = nodeIdOf parentId index;
          isCollapsed = (nodeId \<in> collapsedNodes);
          hasChildren = has_children data
      in if hasChildren \<and> \<not> isCollapsed then
           (case forEachChild nh lw (the (children data)) collapsedNodes nodeId nodes edges
                   (level + 1) 0 yOffset [] of
              (nodes1, edges1, currentY, childHeights) \<Rightarrow>
                let totalHeight = foldl (+) 0 childHeights;
                    firstChildY = childY nodes1 (nodeId @ ''-'' @ toString 0) yOffset;
                    lastChildIndex = length (the (children data)) - 1;
                    lastChildY = childY nodes1 (nodeId @ ''-'' @ toString lastChildIndex) yOffset;
                    centerY = (firstChildY + lastChildY) / 2
                in (nodes1 @ [mkNode nodeId level lw centerY (data_text data) hasChildren isCollapsed],
                    pushEdge parentId nodeId edges1,
                    totalHeight))
         else
           (nodes @ [mkNode nodeId level lw yOffset (data_text data) hasChildren isCollapsed],
            pushEdge parentId nodeId edges,
            nh))"
| "forEachChild nh lw [] collapsedNodes nodeId nodes edges level childIndex currentY childHeights =
     (nodes, edges, currentY, childHeights)"
| "forEachChild nh lw (child # rest) collapsedNodes nodeId nodes edges level childIndex currentY
       childHeights =
     (case generateMindMapNodesAndEdges nh lw child collapsedNodes (Some nodeId) nodes edges
             level childIndex currentY of
        (nodes1, edges1, height) \<Rightarrow>
          forEachChild nh lw rest collapsedNodes nodeId nodes1 edges1 level (childIndex + 1)
            (currentY + height) (childHeights @ [height]))"
  by pat_completeness auto

termination
proof -
  have size_children: "size_list size cs < size data" if "children data = Some cs"
    for data :: MindMapData and cs
    using that by (cases data) simp
  show ?thesis
    by (relation "measure (\<lambda>a. case a of
            Inl (nh, lw, data, r) \<Rightarrow> 2 * size data
          | Inr (nh, lw, cs, r) \<Rightarrow> 2 * size_list size cs + 1)")
       (auto simp: has_children_def split: option.splits dest: size_children)
qed

text \<open>
  Line 201: the component calls the function with its defaults (\<^verbatim>\<open>parentId = null\<close>,
  empty arrays, \<^verbatim>\<open>level = 0\<close>, \<^verbatim>\<open>index = 0\<close>, \<^verbatim>\<open>yOffset = 0\<close>) and keeps
  \<^verbatim>\<open>nodes\<close> and \<^verbatim>\<open>edges\<close>.
\<close>

definition mindMapLayout :: "MindMapData \<Rightarrow> string set \<Rightarrow> LayoutNode list \<times> LayoutEdge list" where
  "mindMapLayout data collapsedNodes =
     (case generateMindMapNodesAndEdges nodeHeight levelWidth data collapsedNodes None [] [] 0 0 0 of
        (nodes, edges, height) \<Rightarrow> (nodes, edges))"

text \<open>Lines 187-197: the updater that \<^verbatim>\<open>onToggle(id)\<close> applies to the collapse set.\<close>

definition onToggle :: "string \<Rightarrow> string set \<Rightarrow> string set" where
  "onToggle i prev = (let next = prev in if i \<in> next then next - {i} else insert i next)"

text \<open>
  The tree of the specification's concrete scenario: root \<open>A\<close> with the children \<open>B\<close> (a
  leaf) and \<open>C\<close>, which has the leaf children \<open>D\<close> and \<open>E\<close>.
\<close>

definition scenarioTree :: MindMapData where
  "scenarioTree = MindMapData ''A'' (Some [MindMapData ''B'' None,
      MindMapData ''C'' (Some [MindMapData ''D'' None, MindMapData ''E'' None])])"

subsection \<open>Binary64 arithmetic\<close>

text \<open>
  The finite binary64 values are the numbers \<open>m * 2 ^ e / 2 ^ 1074\<close> with an integer
  significand \<open>\<bar>m\<bar> \<le> 2 ^ 53\<close> and a natural exponent \<open>e \<le> 971\<close>; \<open>1 / 2 ^ 1074\<close> is the
  least positive one. \<^verbatim>\<open>+\<close>, \<^verbatim>\<open>*\<close> and
  \<^verbatim>\<open>/\<close> on JavaScript numbers return the exact result rounded to the nearest binary64
  value, a tie going to the even significand.

  \<open>roundTiesToEven q\<close> is the integer nearest to \<open>q\<close>, the even one of the two when \<open>q\<close> lies
  halfway. \<open>roundScaled t\<close> rounds \<open>t \<ge> 0\<close>, given in units of \<open>1 / 2 ^ 1074\<close>, to 53
  significant bits: \<open>s\<close> is the number of bits of the integer part of \<open>t\<close> beyond 53 (none
  when \<open>t < 2 ^ 53\<close>, which covers the subnormal range, where the spacing is one unit),
  and \<open>t\<close> is rounded to a multiple of \<open>2 ^ s\<close>. \<open>binary64 x\<close> rounds the magnitude of \<open>x\<close>
  and restores the sign. In \<open>binary64\<close> the exponent is not bounded above: overflow to
  \<^verbatim>\<open>Infinity\<close>, which starts at \<open>2 ^ 1024\<close>, is left out. No coordinate of a layout exceeds \<open>nodeHeight\<close>
  times the number of nodes or \<open>levelWidth\<close> times the depth, and a JavaScript array holds
  fewer than \<open>2 ^ 32\<close> elements.
\<close>

definition roundTiesToEven :: "real \<Rightarrow> int" where
  "roundTiesToEven q =
     (let f = \<lfloor>q\<rfloor>; r = q - of_int f
      in if r < 1 / 2 then f else if 1 / 2 < r then f + 1 else if even f then f else f + 1)"

definition roundScaled :: "real \<Rightarrow> real" where
  "roundScaled t =
     (let s = nat (bitlen \<lfloor>t\<rfloor> - 53)
      in of_int (roundTiesToEven (t / 2 ^ s)) * 2 ^ s)"

definition subnormalScale :: real where
  "subnormalScale = 2 ^ 1074"

definition binary64 :: "real \<Rightarrow> real" where
  "binary64 x = sgn x * roundScaled (\<bar>x\<bar> * subnormalScale) / subnormalScale"

text \<open>The operators \<^verbatim>\<open>+\<close>, \<^verbatim>\<open>*\<close> and \<^verbatim>\<open>/\<close> on JavaScript numbers.\<close>

definition jsAdd :: "real \<Rightarrow> real \<Rightarrow> real" where
  "jsAdd a b = binary64 (a + b)"

definition jsMul :: "real \<Rightarrow> real \<Rightarrow> real" where
  "jsMul a b = binary64 (a * b)"

definition jsDiv :: "real \<Rightarrow> real \<Rightarrow> real" where
  "jsDiv a b = binary64 (a / b)"

subsection \<open>The layout recursion in binary64 arithmetic\<close>

text \<open>
  The same function with the arithmetic of the source: \<^verbatim>\<open>level * levelWidth\<close> (lines 130
  and 156), \<^verbatim>\<open>currentY += childResult.height\<close> (line 109), the \<^verbatim>\<open>reduce\<close> of line 113
  and \<^verbatim>\<open>(firstChildY + lastChildY) / 2\<close> (line 124) are \<open>jsMul\<close>, \<open>jsAdd\<close> and \<open>jsDiv\<close>.
  \<^verbatim>\<open>nodeHeight\<close> and \<^verbatim>\<open>levelWidth\<close> are the constants of lines 85-86, and the function
  has no argument for them. The lookups of lines 116-121 are \<open>childY\<close> as before: \<open>0\<close> is
  the one falsy number that occurs.
\<close>

definition mkNode64 :: "string \<Rightarrow> nat \<Rightarrow> real \<Rightarrow> string \<Rightarrow> bool \<Rightarrow> bool \<Rightarrow> LayoutNode" where
  "mkNode64 nodeId level yv txt hc ic =
     \<lparr>node_id = nodeId, position_x = jsMul (real level) levelWidth, position_y = yv,
      label = txt, hasChildren = hc, isCollapsed = ic,
      className = ''custom-node level-'' @ toString level\<rparr>"

function generateMindMapNodesAndEdges64 ::
    "MindMapData \<Rightarrow> string set \<Rightarrow> string option \<Rightarrow> LayoutNode list \<Rightarrow>
     LayoutEdge list \<Rightarrow> nat \<Rightarrow> nat \<Rightarrow> real \<Rightarrow> LayoutNode list \<times> LayoutEdge list \<times> real"
  and forEachChild64 ::
    "MindMapData list \<Rightarrow> string set \<Rightarrow> string \<Rightarrow> LayoutNode list \<Rightarrow>
     LayoutEdge list \<Rightarrow> nat \<Rightarrow> nat \<Rightarrow> real \<Rightarrow> real list \<Rightarrow>
     LayoutNode list \<times> LayoutEdge list \<times> real \<times> real list"
where
  "generateMindMapNodesAndEdges64 data collapsedNodes parentId nodes edges level index yOffset =
     (let nodeId = nodeIdOf parentId index;
          currentY = yOffset;
          isCollapsed = (nodeId \<in> collapsedNodes);
          hasChildren = has_children data
      in if hasChildren \<and> \<not> isCollapsed then
           (case forEachChild64 (the (children data)) collapsedNodes nodeId nodes edges
                   (level + 1) 0 currentY [] of
              (nodes1, edges1, currentY1, childHeights) \<Rightarrow>
                let totalHeight = foldl jsAdd 0 childHeights;
                    firstChildY = childY nodes1 (nodeId @ ''-'' @ toString 0) yOffset;
                    lastChildIndex = length (the (children data)) - 1;
                    lastChildY = childY nodes1 (nodeId @ ''-'' @ toString lastChildIndex) yOffset;
                    centerY = jsDiv (jsAdd firstChildY lastChildY) 2
                in (nodes1 @ [mkNode64 nodeId level centerY (data_text data) hasChildren isCollapsed],
                    pushEdge parentId nodeId edges1,
                    totalHeight))
         else
           (nodes @ [mkNode64 nodeId level currentY (data_text data) hasChildren isCollapsed],
            pushEdge parentId nodeId edges,
            nodeHeight))"
| "forEachChild64 [] collapsedNodes nodeId nodes edges level childIndex currentY childHeights =
     (nodes, edges, currentY, childHeights)"
| "forEachChild64 (child # rest) collapsedNodes nodeId nodes edges level childIndex currentY
       childHeights =
     (case generateMindMapNodesAndEdges64 child collapsedNodes (Some nodeId) nodes edges
             level childIndex currentY of
        (nodes1, edges1, height) \<Rightarrow>
          forEachChild64 rest collapsedNodes nodeId nodes1 edges1 level (childIndex + 1)
            (jsAdd currentY height) (childHeights @ [height]))"
  by pat_completeness auto

termination
proof -
  have size_children: "size_list size cs < size data" if "children data = Some cs"
    for data :: MindMapData and cs
    using that by (cases data) simp
  show ?thesis
    by (relation "measure (\<lambda>a. case a of
            Inl (data, r) \<Rightarrow> 2 * size data
          | Inr (cs, r) \<Rightarrow> 2 * size_list size cs + 1)")
       (auto simp: has_children_def split: option.splits dest: size_children)
qed

text \<open>Line 201, in binary64 arithmetic.\<close>

definition mindMapLayout64 :: "MindMapData \<Rightarrow> string set \<Rightarrow> LayoutNode list \<times> LayoutEdge list" where
  "mindMapLayout64 data collapsedNodes =
     (case generateMindMapNodesAndEdges64 data collapsedNodes None [] [] 0 0 0 of
        (nodes, edges, height) \<Rightarrow> (nodes, edges))"

section \<open>Notions used to state the properties\<close>

subsection \<open>Tree positions and visibility\<close>

text \<open>
  A position is the list of child indices on the way down from the root; \<open>subtreeAt\<close>
  gives the subtree found there, if the position exists.
\<close>

fun subtreeAt :: "MindMapData \<Rightarrow> nat list \<Rightarrow> MindMapData option" where
  "subtreeAt data [] = Some data"
| "subtreeAt data (i # p) =
     (case children data of
        None \<Rightarrow> None
      | Some cs \<Rightarrow> if i < length cs then subtreeAt (cs ! i) p else None)"

text \<open>The id of the node at a tree position: line 84 applied along the path from the root.\<close>

definition pathId :: "nat list \<Rightarrow> string" where
  "pathId p = foldl (\<lambda>parentId index. nodeIdOf (Some parentId) index) (nodeIdOf None 0) p"

text \<open>
  A position is visible when it exists and no proper ancestor of it both has children and
  is in the collapse set; the proper ancestors of \<open>p\<close> are the positions \<open>take k p\<close> with
  \<open>k < length p\<close>. The root has no proper ancestor and is always visible.
\<close>

definition visible :: "MindMapData \<Rightarrow> string set \<Rightarrow> nat list \<Rightarrow> bool" where
  "visible data collapsedNodes p =
     (subtreeAt data p \<noteq> None \<and>
      (\<forall>k < length p. \<not> (has_children (the (subtreeAt data (take k p))) \<and>
                          pathId (take k p) \<in> collapsedNodes)))"

text \<open>
  \<open>enc q\<close> is what a relative position \<open>q\<close> appends to the id of the node it starts from, and
  \<open>visibleFrom data S P\<close> is visibility inside the subtree \<open>data\<close> of a node whose id is \<open>P\<close>.
\<close>

fun enc :: "nat list \<Rightarrow> string" where
  "enc [] = []"
| "enc (i # q) = ''-'' @ toString i @ enc q"

definition visibleFrom :: "MindMapData \<Rightarrow> string set \<Rightarrow> string \<Rightarrow> nat list \<Rightarrow> bool" where
  "visibleFrom data S P q =
     (subtreeAt data q \<noteq> None \<and>
      (\<forall>k < length q. \<not> (has_children (the (subtreeAt data (take k q))) \<and>
                          P @ enc (take k q) \<in> S)))"

text \<open>
  The visible positions of the subtree \<open>data\<close> of a node with id \<open>nodeId\<close>, each with the
  subtree found there, listed children first and in sibling order, the node itself last.
  For a whole tree the id is \<open>n0\<close>. \<open>visibleChildren\<close> lists the positions below the
  children \<open>childIndex\<close>, \<open>childIndex + 1\<close>, ... of the node.
\<close>

function visibleNodes ::
    "MindMapData \<Rightarrow> string set \<Rightarrow> string \<Rightarrow> (nat list \<times> MindMapData) list"
  and visibleChildren ::
    "MindMapData list \<Rightarrow> string set \<Rightarrow> string \<Rightarrow> nat \<Rightarrow> (nat list \<times> MindMapData) list"
where
  "visibleNodes data collapsedNodes nodeId =
     (if has_children data \<and> nodeId \<notin> collapsedNodes
      then visibleChildren (the (children data)) collapsedNodes nodeId 0 @ [([], data)]
      else [([], data)])"
| "visibleChildren [] collapsedNodes nodeId childIndex = []"
| "visibleChildren (child # rest) collapsedNodes nodeId childIndex =
     map (\<lambda>(q, t). (childIndex # q, t))
       (visibleNodes child collapsedNodes (nodeIdOf (Some nodeId) childIndex))
     @ visibleChildren rest collapsedNodes nodeId (childIndex + 1)"
  by pat_completeness auto

termination
proof -
  have size_children: "size_list size cs < size data" if "children data = Some cs"
    for data :: MindMapData and cs
    using that by (cases data) simp
  show ?thesis
    by (relation "measure (\<lambda>a. case a of
            Inl (data, r) \<Rightarrow> 2 * size data
          | Inr (cs, r) \<Rightarrow> 2 * size_list size cs + 1)")
       (auto simp: has_children_def split: option.splits dest: size_children)
qed

subsection \<open>Rows\<close>

text \<open>
  \<open>rowOf lw S P childLevel (q, t)\<close> is the node pushed for the subtree \<open>t\<close> at the relative
  position \<open>q\<close> below the node with id \<open>P\<close>, whose children are at depth \<open>childLevel\<close>, with
  every field but \<open>y\<close>, which is set to \<open>0\<close>.
\<close>

definition rowOf ::
    "real \<Rightarrow> string set \<Rightarrow> string \<Rightarrow> nat \<Rightarrow> nat list \<times> MindMapData \<Rightarrow> LayoutNode" where
  "rowOf lw S P childLevel = (\<lambda>(q, t). mkNode (P @ enc q) (childLevel + length q - 1) lw 0
      (data_text t) (has_children t) (P @ enc q \<in> S))"

text \<open>A row with no visible children: a leaf, or a collapsed node.\<close>

definition leafRow :: "LayoutNode \<Rightarrow> bool" where
  "leafRow n = (\<not> (hasChildren n \<and> \<not> isCollapsed n))"

text \<open>
  \<open>centred64 nodes i k\<close>: \<open>nodes\<close> holds a node with id \<open>i\<close>, a node with the id of its
  first child and a node with the id of its last child, the child of index \<open>k - 1\<close>, and
  the \<open>y\<close> of the first is \<^verbatim>\<open>(firstChildY + lastChildY) / 2\<close> in binary64 arithmetic, with
  the \<open>y\<close> of the other two for \<^verbatim>\<open>firstChildY\<close> and \<^verbatim>\<open>lastChildY\<close>.
\<close>

definition centred64 :: "LayoutNode list \<Rightarrow> string \<Rightarrow> nat \<Rightarrow> bool" where
  "centred64 nodes i k =
     (case (find (\<lambda>n. node_id n = i) nodes,
            find (\<lambda>n. node_id n = i @ ''-'' @ toString 0) nodes,
            find (\<lambda>n. node_id n = i @ ''-'' @ toString (k - 1)) nodes) of
        (Some n, Some c0, Some ck) \<Rightarrow>
          position_y n = jsDiv (jsAdd (position_y c0) (position_y ck)) 2
      | _ \<Rightarrow> False)"

text \<open>Setting the \<open>isCollapsed\<close> flag of the node with id \<open>l\<close>, and nothing else.\<close>

definition markCollapsed :: "string \<Rightarrow> LayoutNode \<Rightarrow> LayoutNode" where
  "markCollapsed l n = (if node_id n = l then n\<lparr>isCollapsed := True\<rparr> else n)"

subsection \<open>The calls of one layout\<close>

text \<open>
  The lookups of lines 116-121 search the whole shared array, so what a call computes
  depends on what the array holds when the call starts. \<open>freshFor P nodes\<close> says that
  \<open>nodes\<close> holds no id that the call for the node with id \<open>P\<close> will give out, and
  \<open>freshFrom P j nodes\<close> says the same of the loop over the children \<open>j\<close>, \<open>j + 1\<close>, ... of
  that node.
\<close>

definition freshFor :: "string \<Rightarrow> LayoutNode list \<Rightarrow> bool" where
  "freshFor P nodes = (\<forall>n \<in> set nodes. \<forall>q. node_id n \<noteq> P @ enc q)"

definition freshFrom :: "string \<Rightarrow> nat \<Rightarrow> LayoutNode list \<Rightarrow> bool" where
  "freshFrom P j nodes = (\<forall>n \<in> set nodes. \<forall>i q. j \<le> i \<longrightarrow> node_id n \<noteq> P @ enc (i # q))"

text \<open>
  The calls of \<open>generateMindMapNodesAndEdges\<close> that one layout of \<open>tree\<close> makes, each with
  its arguments \<open>(data, parentId, nodes, edges, level, index, yOffset)\<close>: the call of the
  component, and, for a call that takes the first branch, the call for each child
  \<open>i\<close>, which receives the arrays and the cursor that the loop has reached after the
  children before it (lemma \<open>forEachChild_split\<close>).
\<close>

inductive calls ::
    "MindMapData \<Rightarrow> string set \<Rightarrow>
     MindMapData \<times> string option \<times> LayoutNode list \<times> LayoutEdge list \<times> nat \<times> nat \<times> real \<Rightarrow> bool"
  for tree :: MindMapData and collapsedNodes :: "string set"
where
  top: "calls tree collapsedNodes (tree, None, [], [], 0, 0, 0)"
| child:
    "calls tree collapsedNodes (data, parentId, nodes, edges, level, index, yOffset) \<Longrightarrow>
     has_children data \<Longrightarrow> nodeIdOf parentId index \<notin> collapsedNodes \<Longrightarrow>
     i < length (the (children data)) \<Longrightarrow>
     forEachChild nodeHeight levelWidth (take i (the (children data))) collapsedNodes
       (nodeIdOf parentId index) nodes edges (level + 1) 0 yOffset [] =
       (nodes1, edges1, currentY, childHeights) \<Longrightarrow>
     calls tree collapsedNodes
       (the (children data) ! i, Some (nodeIdOf parentId index), nodes1, edges1, level + 1, i,
        currentY)"

section \<open>Lemmas\<close>

subsection \<open>The two branches of the function\<close>

declare generateMindMapNodesAndEdges.simps [simp del]

lemma gen_leaf:
  "\<not> (has_children data \<and> nodeIdOf parentId index \<notin> collapsedNodes) \<Longrightarrow>
   generateMindMapNodesAndEdges nh lw data collapsedNodes parentId nodes edges level index yOffset =
     (nodes @ [mkNode (nodeIdOf parentId index) level lw yOffset (data_text data)
                 (has_children data) (nodeIdOf parentId index \<in> collapsedNodes)],
      pushEdge parentId (nodeIdOf parentId index) edges, nh)"
  by (auto simp add: generateMindMapNodesAndEdges.simps Let_def)

lemma gen_parent:
  "has_children data \<Longrightarrow> nodeIdOf parentId index \<notin> collapsedNodes \<Longrightarrow>
   generateMindMapNodesAndEdges nh lw data collapsedNodes parentId nodes edges level index yOffset =
     (case forEachChild nh lw (the (children data)) collapsedNodes (nodeIdOf parentId index)
             nodes edges (level + 1) 0 yOffset [] of
        (nodes1, edges1, currentY, childHeights) \<Rightarrow>
          (nodes1 @ [mkNode (nodeIdOf parentId index) level lw
               ((childY nodes1 (nodeIdOf parentId index @ ''-'' @ toString 0) yOffset +
                 childY nodes1 (nodeIdOf parentId index @ ''-'' @
                    toString (length (the (children data)) - 1)) yOffset) / 2)
               (data_text data) True False],
           pushEdge parentId (nodeIdOf parentId index) edges1,
           foldl (+) 0 childHeights))"
  by (simp add: generateMindMapNodesAndEdges.simps Let_def)

subsection \<open>Decimal rendering and the encoding of positions\<close>

lemma digit_not_dash: "d < 10 \<Longrightarrow> digit d \<noteq> CHR ''-''"
proof -
  assume "d < 10"
  then have "d \<in> {0, 1, 2, 3, 4, 5, 6, 7, 8, 9}" by auto
  then show ?thesis by (auto simp: digit_def)
qed

lemma digit_inj: "d < 10 \<Longrightarrow> e < 10 \<Longrightarrow> digit d = digit e \<Longrightarrow> d = e"
proof -
  assume "d < 10" "e < 10" and eq: "digit d = digit e"
  then have "d \<in> {0, 1, 2, 3, 4, 5, 6, 7, 8, 9}" "e \<in> {0, 1, 2, 3, 4, 5, 6, 7, 8, 9}" by auto
  with eq show ?thesis by (auto simp: digit_def)
qed

lemma toString_nonempty: "toString n \<noteq> []"
  by (subst toString.simps) simp

lemma toString_no_dash: "CHR ''-'' \<notin> set (toString n)"
proof (induction n rule: toString.induct)
  case (1 n)
  show ?case
  proof (cases "n < 10")
    case True
    then show ?thesis
      using digit_not_dash [of n] by (subst toString.simps) auto
  next
    case False
    then have "n mod 10 < 10" by simp
    with False 1 show ?thesis
      using digit_not_dash [of "n mod 10"] by (subst toString.simps) auto
  qed
qed

lemma toString_inj: "toString n = toString m \<Longrightarrow> n = m"
proof (induction n arbitrary: m rule: toString.induct)
  case (1 n)
  show ?case
  proof (cases "n < 10")
    case n: True
    show ?thesis
    proof (cases "m < 10")
      case True
      with n 1(2) show ?thesis
        by (simp add: toString.simps [of n] toString.simps [of m] digit_inj)
    next
      case False
      with n 1(2) toString_nonempty [of "m div 10"] show ?thesis
        by (simp add: toString.simps [of n] toString.simps [of m])
    qed
  next
    case n: False
    show ?thesis
    proof (cases "m < 10")
      case True
      with n 1(2) toString_nonempty [of "n div 10"] show ?thesis
        by (simp add: toString.simps [of n] toString.simps [of m])
    next
      case False
      with n 1(2) have eq: "toString (n div 10) = toString (m div 10)"
        and dg: "digit (n mod 10) = digit (m mod 10)"
        by (simp_all add: toString.simps [of n] toString.simps [of m])
      from 1(1) [OF n eq] have "n div 10 = m div 10" .
      moreover from dg have "n mod 10 = m mod 10"
        by (intro digit_inj) simp_all
      ultimately show ?thesis
        by (metis div_mult_mod_eq)
    qed
  qed
qed

lemma enc_append: "enc (p @ q) = enc p @ enc q"
  by (induction p) simp_all

lemma toString_enc_split:
  assumes "toString i @ enc p = toString j @ enc q"
  shows "i = j \<and> enc p = enc q"
proof -
  have tw: "takeWhile (\<lambda>c. c \<noteq> CHR ''-'') (toString k @ enc r) = toString k" for k r
  proof (cases r)
    case Nil
    then show ?thesis using toString_no_dash [of k] by (simp add: takeWhile_eq_all_conv) metis
  next
    case (Cons a r')
    then show ?thesis using toString_no_dash [of k]
      by (simp add: takeWhile_tail takeWhile_eq_all_conv) metis
  qed
  from assms have "takeWhile (\<lambda>c. c \<noteq> CHR ''-'') (toString i @ enc p) =
      takeWhile (\<lambda>c. c \<noteq> CHR ''-'') (toString j @ enc q)" by simp
  then have "toString i = toString j" by (simp only: tw)
  then have "i = j" by (rule toString_inj)
  with assms show ?thesis by simp
qed

lemma enc_inj: "enc p = enc q \<Longrightarrow> p = q"
proof (induction p arbitrary: q)
  case Nil
  then show ?case by (cases q) simp_all
next
  case (Cons i p)
  then show ?case
  proof (cases q)
    case Nil
    with Cons.prems show ?thesis by simp
  next
    case (Cons j q')
    with Cons.prems have "toString i @ enc p = toString j @ enc q'" by simp
    then have "i = j" "enc p = enc q'" using toString_enc_split by blast+
    with Cons.IH Cons show ?thesis by simp
  qed
qed

subsection \<open>What a call pushes\<close>

text \<open>
  A call appends to the arrays: one node per visible position of its subtree, with the
  fields \<open>rowOf\<close> gives, and one edge per node that has a parent.
\<close>

declare visibleNodes.simps [simp del]

lemma nodeIdOf_nonempty: "nodeIdOf parentId index \<noteq> []"
  by (simp add: nodeIdOf_def)

lemma nodeIdOf_child: "P \<noteq> [] \<Longrightarrow> nodeIdOf (Some P) i = P @ enc [i]"
  by (simp add: nodeIdOf_def truthy_def)

lemma shape:
  shows "\<exists>new. fst (generateMindMapNodesAndEdges nh lw d S pid acc es lvl idx y0) = acc @ new
      \<and> map (\<lambda>n. n\<lparr>position_y := 0\<rparr>) new =
          map (rowOf lw S (nodeIdOf pid idx) (lvl + 1)) (visibleNodes d S (nodeIdOf pid idx))"
    and "P \<noteq> [] \<Longrightarrow> \<exists>new. fst (forEachChild nh lw cs S P acc es lvl j cur hs) = acc @ new
      \<and> map (\<lambda>n. n\<lparr>position_y := 0\<rparr>) new =
          map (rowOf lw S P lvl) (visibleChildren cs S P j)"
proof (induction nh lw d S pid acc es lvl idx y0 and nh lw cs S P acc es lvl j cur hs
    rule: generateMindMapNodesAndEdges_forEachChild.induct)
  case (1 nh lw data S parentId nodes edges level index yOffset)
  let ?P = "nodeIdOf parentId index"
  show ?case
  proof (cases "has_children data \<and> ?P \<notin> S")
    case True
    from 1 [OF refl refl refl] True nodeIdOf_nonempty
    obtain new where new: "fst (forEachChild nh lw (the (children data)) S ?P nodes edges
          (level + 1) 0 yOffset []) = nodes @ new"
      "map (\<lambda>n. n\<lparr>position_y := 0\<rparr>) new =
          map (rowOf lw S ?P (level + 1)) (visibleChildren (the (children data)) S ?P 0)"
      by fastforce
    show ?thesis
      using True new
      by (auto simp: gen_parent visibleNodes.simps rowOf_def mkNode_def split: prod.splits)
  next
    case False
    then show ?thesis
      by (auto simp: gen_leaf visibleNodes.simps rowOf_def mkNode_def)
  qed
next
  case (2 nh lw S nodeId nodes edges level childIndex currentY childHeights)
  then show ?case by simp
next
  case (3 nh lw child rest S nodeId nodes edges level childIndex currentY childHeights)
  obtain nodes1 edges1 height where r:
    "generateMindMapNodesAndEdges nh lw child S (Some nodeId) nodes edges level childIndex currentY
      = (nodes1, edges1, height)"
    by (cases "generateMindMapNodesAndEdges nh lw child S (Some nodeId) nodes edges level
           childIndex currentY") auto
  from 3(1) r obtain new1 where new1: "nodes1 = nodes @ new1"
      "map (\<lambda>n. n\<lparr>position_y := 0\<rparr>) new1 =
          map (rowOf lw S (nodeIdOf (Some nodeId) childIndex) (level + 1))
            (visibleNodes child S (nodeIdOf (Some nodeId) childIndex))"
    by auto
  from 3(2) [OF r [symmetric] refl] 3(3)
  obtain new2 where new2: "fst (forEachChild nh lw rest S nodeId nodes1 edges1 level
        (childIndex + 1) (currentY + height) (childHeights @ [height])) = nodes1 @ new2"
      "map (\<lambda>n. n\<lparr>position_y := 0\<rparr>) new2 =
          map (rowOf lw S nodeId level) (visibleChildren rest S nodeId (childIndex + 1))"
    by auto
  show ?case
    using r new1 new2 3(3)
    by (simp add: nodeIdOf_child rowOf_def split_def)
qed

lemma edges_count:
  shows "length (fst (snd (generateMindMapNodesAndEdges nh lw d S pid acc es lvl idx y0)))
        + (if truthy pid then 0 else 1)
      = length es + length (visibleNodes d S (nodeIdOf pid idx))"
    and "P \<noteq> [] \<Longrightarrow> length (fst (snd (forEachChild nh lw cs S P acc es lvl j cur hs)))
      = length es + length (visibleChildren cs S P j)"
proof (induction nh lw d S pid acc es lvl idx y0 and nh lw cs S P acc es lvl j cur hs
    rule: generateMindMapNodesAndEdges_forEachChild.induct)
  case (1 nh lw data S parentId nodes edges level index yOffset)
  let ?P = "nodeIdOf parentId index"
  show ?case
  proof (cases "has_children data \<and> ?P \<notin> S")
    case True
    with 1 [OF refl refl refl] nodeIdOf_nonempty
    have "length (fst (snd (forEachChild nh lw (the (children data)) S ?P nodes edges
          (level + 1) 0 yOffset []))) = length edges + length (visibleChildren (the (children data)) S ?P 0)"
      by fastforce
    with True show ?thesis
      by (auto simp: gen_parent visibleNodes.simps pushEdge_def split: prod.splits)
  next
    case False
    then show ?thesis
      by (auto simp: gen_leaf visibleNodes.simps pushEdge_def)
  qed
next
  case (2 nh lw S nodeId nodes edges level childIndex currentY childHeights)
  then show ?case by simp
next
  case (3 nh lw child rest S nodeId nodes edges level childIndex currentY childHeights)
  obtain nodes1 edges1 height where r:
    "generateMindMapNodesAndEdges nh lw child S (Some nodeId) nodes edges level childIndex currentY
      = (nodes1, edges1, height)"
    by (cases "generateMindMapNodesAndEdges nh lw child S (Some nodeId) nodes edges level
           childIndex currentY") auto
  from 3(1) r 3(3) have "length edges1 =
      length edges + length (visibleNodes child S (nodeIdOf (Some nodeId) childIndex))"
    by (simp add: truthy_def)
  moreover from 3(2) [OF r [symmetric] refl] 3(3)
  have "length (fst (snd (forEachChild nh lw rest S nodeId nodes1 edges1 level
        (childIndex + 1) (currentY + height) (childHeights @ [height])))) =
      length edges1 + length (visibleChildren rest S nodeId (childIndex + 1))"
    by auto
  ultimately show ?case
    using r by simp
qed

subsection \<open>Heights and leaf rows\<close>

lemma leafRow_mkNode [simp]: "leafRow (mkNode i l w v t hc ic) = (\<not> (hc \<and> \<not> ic))"
  by (simp add: leafRow_def mkNode_def)

lemma position_y_mkNode [simp]: "position_y (mkNode i l w v t hc ic) = v"
  by (simp add: mkNode_def)

lemma node_id_mkNode [simp]: "node_id (mkNode i l w v t hc ic) = i"
  by (simp add: mkNode_def)

lemma foldl_plus_sum_list: "foldl (+) a xs = a + sum_list xs" for a :: real
  by (induction xs arbitrary: a) simp_all

lemma map_upt_add:
  "map f [0..<m + n] = map f [0..<m] @ map (\<lambda>k. f (m + k)) [0..<n]"
  by (induction n) (simp_all add: add.assoc [symmetric] del: add_Suc_right, simp)

lemma leaf_rows:
  shows "\<exists>new. fst (generateMindMapNodesAndEdges nh lw d S pid acc es lvl idx y0) = acc @ new
      \<and> map position_y (filter leafRow new) =
          map (\<lambda>k. y0 + nh * real k) [0..<length (filter leafRow new)]
      \<and> snd (snd (generateMindMapNodesAndEdges nh lw d S pid acc es lvl idx y0)) =
          nh * real (length (filter leafRow new))"
    and "\<exists>new newhs. fst (forEachChild nh lw cs S P acc es lvl j cur hs) = acc @ new
      \<and> map position_y (filter leafRow new) =
          map (\<lambda>k. cur + nh * real k) [0..<length (filter leafRow new)]
      \<and> fst (snd (snd (forEachChild nh lw cs S P acc es lvl j cur hs))) =
          cur + nh * real (length (filter leafRow new))
      \<and> snd (snd (snd (forEachChild nh lw cs S P acc es lvl j cur hs))) = hs @ newhs
      \<and> sum_list newhs = nh * real (length (filter leafRow new))"
proof (induction nh lw d S pid acc es lvl idx y0 and nh lw cs S P acc es lvl j cur hs
    rule: generateMindMapNodesAndEdges_forEachChild.induct)
  case (1 nh lw data S parentId nodes edges level index yOffset)
  let ?P = "nodeIdOf parentId index"
  show ?case
  proof (cases "has_children data \<and> ?P \<notin> S")
    case True
    let ?r = "forEachChild nh lw (the (children data)) S ?P nodes edges (level + 1) 0 yOffset []"
    from 1 [OF refl refl refl] True
    obtain new newhs where new: "fst ?r = nodes @ new"
      "map position_y (filter leafRow new) =
          map (\<lambda>k. yOffset + nh * real k) [0..<length (filter leafRow new)]"
      "snd (snd (snd ?r)) = newhs"
      "sum_list newhs = nh * real (length (filter leafRow new))"
      by fastforce
    show ?thesis
      using True new
      by (auto simp: gen_parent foldl_plus_sum_list split: prod.splits)
  next
    case False
    then show ?thesis
      by (auto simp: gen_leaf)
  qed
next
  case (2 nh lw S nodeId nodes edges level childIndex currentY childHeights)
  then show ?case by simp
next
  case (3 nh lw child rest S nodeId nodes edges level childIndex currentY childHeights)
  obtain nodes1 edges1 height where r:
    "generateMindMapNodesAndEdges nh lw child S (Some nodeId) nodes edges level childIndex currentY
      = (nodes1, edges1, height)"
    by (cases "generateMindMapNodesAndEdges nh lw child S (Some nodeId) nodes edges level
           childIndex currentY") auto
  let ?r = "forEachChild nh lw rest S nodeId nodes1 edges1 level
        (childIndex + 1) (currentY + height) (childHeights @ [height])"
  from 3(1) r obtain new1 where new1: "nodes1 = nodes @ new1"
      "map position_y (filter leafRow new1) =
          map (\<lambda>k. currentY + nh * real k) [0..<length (filter leafRow new1)]"
      "height = nh * real (length (filter leafRow new1))"
    by auto
  from 3(2) [OF r [symmetric] refl]
  obtain new2 newhs where new2: "fst ?r = nodes1 @ new2"
      "map position_y (filter leafRow new2) =
          map (\<lambda>k. currentY + height + nh * real k) [0..<length (filter leafRow new2)]"
      "fst (snd (snd ?r)) = currentY + height + nh * real (length (filter leafRow new2))"
      "snd (snd (snd ?r)) = (childHeights @ [height]) @ newhs"
      "sum_list newhs = nh * real (length (filter leafRow new2))"
    by blast
  have "fst ?r = nodes @ (new1 @ new2)"
    using new1 new2 by simp
  moreover have "map position_y (filter leafRow (new1 @ new2)) =
      map (\<lambda>k. currentY + nh * real k) [0..<length (filter leafRow (new1 @ new2))]"
    using new1 new2 by (simp add: map_upt_add algebra_simps)
  moreover have "fst (snd (snd ?r)) = currentY + nh * real (length (filter leafRow (new1 @ new2)))"
    using new1 new2 by (simp add: algebra_simps)
  moreover have "snd (snd (snd ?r)) = childHeights @ (height # newhs)"
    using new2 by simp
  moreover have "sum_list (height # newhs) = nh * real (length (filter leafRow (new1 @ new2)))"
    using new1 new2 by (simp add: algebra_simps)
  ultimately have "\<exists>new newhs. fst ?r = nodes @ new
      \<and> map position_y (filter leafRow new) =
          map (\<lambda>k. currentY + nh * real k) [0..<length (filter leafRow new)]
      \<and> fst (snd (snd ?r)) = currentY + nh * real (length (filter leafRow new))
      \<and> snd (snd (snd ?r)) = childHeights @ newhs
      \<and> sum_list newhs = nh * real (length (filter leafRow new))"
    by blast
  moreover have "forEachChild nh lw (child # rest) S nodeId nodes edges level childIndex currentY
       childHeights = ?r"
    using r by simp
  ultimately show ?case
    by (simp only:)
qed

subsection \<open>The ids a call gives out\<close>

lemma visibleChildren_heads:
  "p \<in> set (visibleChildren cs S P j) \<Longrightarrow>
     \<exists>i q. fst p = i # q \<and> j \<le> i \<and> i < j + length cs"
proof (induction cs arbitrary: j)
  case Nil
  then show ?case by simp
next
  case (Cons c cs)
  from Cons.prems have "p \<in> set (map (\<lambda>(q, t). (j # q, t)) (visibleNodes c S (nodeIdOf (Some P) j)))
      \<or> p \<in> set (visibleChildren cs S P (j + 1))"
    by simp
  then consider
      (child) "p \<in> set (map (\<lambda>(q, t). (j # q, t)) (visibleNodes c S (nodeIdOf (Some P) j)))"
    | (rest) "p \<in> set (visibleChildren cs S P (j + 1))"
    by blast
  then show ?case
  proof cases
    case child
    then show ?thesis by auto
  next
    case rest
    from Cons.IH [OF rest] show ?thesis by auto
  qed
qed

lemma visibleNodes_own:
  "\<exists>vs. visibleNodes d S P = vs @ [([], d)] \<and> (\<forall>p \<in> set vs. fst p \<noteq> [])"
proof (cases "has_children d \<and> P \<notin> S")
  case True
  then have "visibleNodes d S P = visibleChildren (the (children d)) S P 0 @ [([], d)]"
    by (simp add: visibleNodes.simps)
  moreover have "\<forall>p \<in> set (visibleChildren (the (children d)) S P 0). fst p \<noteq> []"
    using visibleChildren_heads by fastforce
  ultimately show ?thesis by blast
next
  case False
  then show ?thesis by (auto simp add: visibleNodes.simps)
qed

lemma node_ids:
  shows "\<exists>new. fst (generateMindMapNodesAndEdges nh lw d S pid acc es lvl idx y0) = acc @ new
      \<and> map node_id new =
          map (\<lambda>p. nodeIdOf pid idx @ enc (fst p)) (visibleNodes d S (nodeIdOf pid idx))"
    and "P \<noteq> [] \<Longrightarrow> \<exists>new. fst (forEachChild nh lw cs S P acc es lvl j cur hs) = acc @ new
      \<and> map node_id new = map (\<lambda>p. P @ enc (fst p)) (visibleChildren cs S P j)"
proof -
  have ids: "map node_id new = map (\<lambda>p. Q @ enc (fst p)) vs"
    if "map (\<lambda>n. n\<lparr>position_y := 0\<rparr>) new = map (rowOf lw S Q l) vs" for new Q l vs
  proof -
    have "map node_id (map (\<lambda>n. n\<lparr>position_y := 0\<rparr>) new) = map node_id (map (rowOf lw S Q l) vs)"
      using that by simp
    then show ?thesis
      by (simp add: rowOf_def o_def split_def)
  qed
  show "\<exists>new. fst (generateMindMapNodesAndEdges nh lw d S pid acc es lvl idx y0) = acc @ new
      \<and> map node_id new =
          map (\<lambda>p. nodeIdOf pid idx @ enc (fst p)) (visibleNodes d S (nodeIdOf pid idx))"
    using shape(1) [of nh lw d S pid acc es lvl idx y0] ids by blast
  show "\<exists>new. fst (forEachChild nh lw cs S P acc es lvl j cur hs) = acc @ new
      \<and> map node_id new = map (\<lambda>p. P @ enc (fst p)) (visibleChildren cs S P j)" if "P \<noteq> []"
    using shape(2) [OF that, of nh lw cs S acc es lvl j cur hs] ids by blast
qed

subsection \<open>Lookups in the shared array\<close>

lemma find_append_Some: "find p xs = Some x \<Longrightarrow> find p (xs @ ys) = Some x"
  by (induction xs) (auto split: if_splits)

lemma find_append_None: "find p xs = None \<Longrightarrow> find p (xs @ ys) = find p ys"
  by (induction xs) (auto split: if_splits)

lemma find_None_iff': "find p xs = None \<longleftrightarrow> (\<forall>x \<in> set xs. \<not> p x)"
  by (induction xs) auto

text \<open>The node of a call is the first one with its id, and the last one the call pushes.\<close>

lemma gen_own_node:
  assumes "freshFor (nodeIdOf pid idx) acc"
  shows "\<exists>new own. fst (generateMindMapNodesAndEdges nh lw d S pid acc es lvl idx y0)
          = acc @ new @ [own]
      \<and> node_id own = nodeIdOf pid idx
      \<and> find (\<lambda>n. node_id n = nodeIdOf pid idx) (acc @ new) = None"
proof -
  let ?P = "nodeIdOf pid idx"
  obtain new where new: "fst (generateMindMapNodesAndEdges nh lw d S pid acc es lvl idx y0) = acc @ new"
    "map node_id new = map (\<lambda>p. ?P @ enc (fst p)) (visibleNodes d S ?P)"
    using node_ids(1) by blast
  obtain vs where vs: "visibleNodes d S ?P = vs @ [([], d)]" "\<forall>p \<in> set vs. fst p \<noteq> []"
    using visibleNodes_own by blast
  from new(2) vs(1) have len: "length new = length vs + 1"
    by (metis length_append_singleton length_map Suc_eq_plus1)
  then obtain new' own where split: "new = new' @ [own]"
    by (metis Suc_eq_plus1 length_Suc_conv_rev)
  with new(2) vs(1) have ids: "map node_id new' = map (\<lambda>p. ?P @ enc (fst p)) vs"
    and own: "node_id own = ?P"
    by simp_all
  have "\<forall>n \<in> set new'. node_id n \<noteq> ?P"
  proof
    fix n assume "n \<in> set new'"
    then have "node_id n \<in> set (map (\<lambda>p. ?P @ enc (fst p)) vs)"
      using ids by (metis image_eqI set_map)
    then obtain p where "p \<in> set vs" "node_id n = ?P @ enc (fst p)" by auto
    with vs(2) show "node_id n \<noteq> ?P"
      by (cases "fst p") auto
  qed
  moreover have "\<forall>n \<in> set acc. node_id n \<noteq> ?P"
    using assms unfolding freshFor_def by (metis append_Nil2 enc.simps(1))
  ultimately have "find (\<lambda>n. node_id n = ?P) (acc @ new') = None"
    by (auto simp: find_None_iff')
  with new(1) split own show ?thesis by auto
qed

lemma childY_ge:
  assumes "\<And>c. find (\<lambda>n. node_id n = cid) nodes = Some c \<Longrightarrow> y0 \<le> position_y c"
  shows "y0 \<le> childY nodes cid y0"
  using assms by (auto simp: childY_def split: option.splits)

lemma enc_cons_neq: "i \<noteq> i' \<Longrightarrow> P @ enc (i # q) \<noteq> P @ enc (i' # q')"
  using enc_inj [of "i # q" "i' # q'"] by auto

lemma freshFor_child: "freshFrom P j acc \<Longrightarrow> P \<noteq> [] \<Longrightarrow> freshFor (nodeIdOf (Some P) j) acc"
  by (simp add: freshFrom_def freshFor_def nodeIdOf_child)

lemma freshFrom_start: "freshFor P acc \<Longrightarrow> freshFrom P 0 acc"
  by (simp add: freshFrom_def freshFor_def del: enc.simps)

lemma freshFrom_step:
  assumes "freshFrom P j acc" and "P \<noteq> []"
    and "map node_id new = map (\<lambda>p. nodeIdOf (Some P) j @ enc (fst p)) vs"
  shows "freshFrom P (j + 1) (acc @ new)"
proof -
  have "node_id n \<noteq> P @ enc (i # q)" if "n \<in> set new" "j + 1 \<le> i" for n i q
  proof -
    from that(1) have "node_id n \<in> set (map (\<lambda>p. nodeIdOf (Some P) j @ enc (fst p)) vs)"
      using assms(3) by (metis image_eqI set_map)
    then obtain p where "node_id n = P @ enc (j # fst p)"
      using assms(2) by (auto simp: nodeIdOf_child)
    moreover from that(2) have "j \<noteq> i" by simp
    ultimately show ?thesis
      using enc_cons_neq by metis
  qed
  moreover have "node_id n \<noteq> P @ enc (i # q)" if "n \<in> set acc" "j + 1 \<le> i" for n i q
    using assms(1) that unfolding freshFrom_def by auto
  ultimately show ?thesis
    unfolding freshFrom_def by auto
qed

lemma y_lower:
  shows "freshFor (nodeIdOf pid idx) acc \<Longrightarrow> 0 \<le> nh \<Longrightarrow>
      \<exists>new. fst (generateMindMapNodesAndEdges nh lw d S pid acc es lvl idx y0) = acc @ new
        \<and> (\<forall>n \<in> set new. y0 \<le> position_y n)"
    and "P \<noteq> [] \<Longrightarrow> freshFrom P j acc \<Longrightarrow> 0 \<le> nh \<Longrightarrow>
      \<exists>new. fst (forEachChild nh lw cs S P acc es lvl j cur hs) = acc @ new
        \<and> (\<forall>n \<in> set new. cur \<le> position_y n)
        \<and> (\<forall>i. j \<le> i \<and> i < j + length cs \<longrightarrow>
              (\<exists>c \<in> set new. find (\<lambda>n. node_id n = P @ enc [i]) (acc @ new) = Some c))"
proof (induction nh lw d S pid acc es lvl idx y0 and nh lw cs S P acc es lvl j cur hs
    rule: generateMindMapNodesAndEdges_forEachChild.induct)
  case (1 nh lw data S parentId nodes edges level index yOffset)
  let ?P = "nodeIdOf parentId index"
  show ?case
  proof (cases "has_children data \<and> ?P \<notin> S")
    case True
    let ?cs = "the (children data)"
    let ?r = "forEachChild nh lw ?cs S ?P nodes edges (level + 1) 0 yOffset []"
    from True have len: "0 < length ?cs"
      by (auto simp: has_children_def split: option.splits)
    from 1(1) [OF refl refl refl _ nodeIdOf_nonempty freshFrom_start [OF 1(2)] 1(3)] True
    obtain new where new: "fst ?r = nodes @ new"
      "\<forall>n \<in> set new. yOffset \<le> position_y n"
      "\<forall>i. i < length ?cs \<longrightarrow>
          (\<exists>c \<in> set new. find (\<lambda>n. node_id n = ?P @ enc [i]) (nodes @ new) = Some c)"
      by auto
    have lookup: "yOffset \<le> childY (nodes @ new) (?P @ enc [i]) yOffset" if "i < length ?cs" for i
    proof (rule childY_ge)
      fix c assume "find (\<lambda>n. node_id n = ?P @ enc [i]) (nodes @ new) = Some c"
      with new(3) that have "c \<in> set new" by auto
      with new(2) show "yOffset \<le> position_y c" by simp
    qed
    from len have "yOffset \<le> childY (nodes @ new) (?P @ enc [0]) yOffset"
      "yOffset \<le> childY (nodes @ new) (?P @ enc [length ?cs - 1]) yOffset"
      by (simp_all add: lookup del: enc.simps)
    then have "yOffset \<le> (childY (nodes @ new) (?P @ ''-'' @ toString 0) yOffset +
        childY (nodes @ new) (?P @ ''-'' @ toString (length ?cs - 1)) yOffset) / 2"
      by simp
    with True new(1,2) show ?thesis
      by (auto simp: gen_parent split: prod.splits)
  next
    case False
    then show ?thesis
      by (auto simp: gen_leaf)
  qed
next
  case (2 nh lw S nodeId nodes edges level childIndex currentY childHeights)
  then show ?case by simp
next
  case (3 nh lw child rest S nodeId nodes edges level childIndex currentY childHeights)
  let ?Pj = "nodeIdOf (Some nodeId) childIndex"
  let ?g = "generateMindMapNodesAndEdges nh lw child S (Some nodeId) nodes edges level childIndex
      currentY"
  obtain nodes1 edges1 height where r: "?g = (nodes1, edges1, height)"
    by (cases ?g) auto
  let ?r = "forEachChild nh lw rest S nodeId nodes1 edges1 level
        (childIndex + 1) (currentY + height) (childHeights @ [height])"
  have step: "forEachChild nh lw (child # rest) S nodeId nodes edges level childIndex currentY
       childHeights = ?r"
    using r by simp
  have fresh: "freshFor ?Pj nodes"
    using 3(3,4) by (rule freshFor_child [rotated])
  from 3(1) [OF fresh 3(5)] r obtain new1 where new1: "nodes1 = nodes @ new1"
      "\<forall>n \<in> set new1. currentY \<le> position_y n"
    by auto
  from gen_own_node [OF fresh, of nh lw child S edges level currentY] r
  obtain new' own where own: "nodes1 = nodes @ new' @ [own]" "node_id own = ?Pj"
      "find (\<lambda>n. node_id n = ?Pj) (nodes @ new') = None"
    by auto
  from own(1) new1(1) have new1_split: "new1 = new' @ [own]" by simp
  from own(2,3) have find_own: "find (\<lambda>n. node_id n = ?Pj) nodes1 = Some own"
    by (simp add: own(1) find_append_None flip: append_assoc)
  from node_ids(1) [of nh lw child S "Some nodeId" nodes edges level childIndex currentY] r new1(1)
  have ids: "map node_id new1 = map (\<lambda>p. ?Pj @ enc (fst p)) (visibleNodes child S ?Pj)"
    by auto
  have fresh': "freshFrom nodeId (childIndex + 1) nodes1"
    unfolding new1(1) using 3(4,3) ids by (rule freshFrom_step)
  from leaf_rows(1) [of nh lw child S "Some nodeId" nodes edges level childIndex currentY] r 3(5)
  have height: "0 \<le> height" by auto
  from 3(2) [OF r [symmetric] refl 3(3) fresh' 3(5)]
  obtain new2 where new2: "fst ?r = nodes1 @ new2"
      "\<forall>n \<in> set new2. currentY + height \<le> position_y n"
      "\<forall>i. childIndex + 1 \<le> i \<and> i < childIndex + 1 + length rest \<longrightarrow>
          (\<exists>c \<in> set new2. find (\<lambda>n. node_id n = nodeId @ enc [i]) (nodes1 @ new2) = Some c)"
    by auto
  have a: "fst ?r = nodes @ (new1 @ new2)"
    using new1(1) new2(1) by simp
  have b: "\<forall>n \<in> set (new1 @ new2). currentY \<le> position_y n"
    using new1(2) new2(2) height by fastforce
  have c: "\<exists>c \<in> set (new1 @ new2).
      find (\<lambda>n. node_id n = nodeId @ enc [i]) (nodes @ (new1 @ new2)) = Some c"
    if "childIndex \<le> i" "i < childIndex + length (child # rest)" for i
  proof (cases "i = childIndex")
    case True
    from find_own have "find (\<lambda>n. node_id n = ?Pj) (nodes1 @ new2) = Some own"
      by (rule find_append_Some)
    with True new1(1) new1_split 3(3) show ?thesis
      by (simp add: nodeIdOf_child)
  next
    case False
    with that have "childIndex + 1 \<le> i \<and> i < childIndex + 1 + length rest"
      by simp
    with new2(3) obtain c where "c \<in> set new2"
      "find (\<lambda>n. node_id n = nodeId @ enc [i]) (nodes1 @ new2) = Some c"
      by blast
    with new1(1) show ?thesis by auto
  qed
  from a b c show ?case
    unfolding step by blast
qed

text \<open>A lookup that finds a node at or below a non-negative cursor returns its \<open>y\<close>.\<close>

lemma childY_exact:
  assumes "find (\<lambda>n. node_id n = cid) nodes = Some c" and "y0 \<le> position_y c" and "0 \<le> y0"
  shows "childY nodes cid y0 = position_y c"
  using assms by (auto simp: childY_def)

subsection \<open>Visible positions\<close>

lemma pathId_enc: "pathId p = ''n0'' @ enc p"
proof -
  have "foldl (\<lambda>parentId index. nodeIdOf (Some parentId) index) P p = P @ enc p" if "P \<noteq> []" for P
    using that
  proof (induction p arbitrary: P)
    case Nil
    then show ?case by simp
  next
    case (Cons i p)
    have "nodeIdOf (Some P) i \<noteq> []" by (rule nodeIdOf_nonempty)
    from Cons.IH [OF this] Cons.prems show ?case
      by (simp add: nodeIdOf_child)
  qed
  moreover have "nodeIdOf None 0 = ''n0''"
    by (simp add: nodeIdOf_def truthy_def)
  ultimately show ?thesis
    by (simp add: pathId_def)
qed

lemma pathId_inj: "pathId p = pathId q \<Longrightarrow> p = q"
  by (simp add: pathId_enc enc_inj)

lemma visibleFrom_Nil [simp]: "visibleFrom data S P []"
  by (simp add: visibleFrom_def)

lemma visibleFrom_Cons:
  "visibleFrom data S P (i # q) \<longleftrightarrow>
     has_children data \<and> P \<notin> S \<and> i < length (the (children data)) \<and>
     visibleFrom (the (children data) ! i) S (P @ enc [i]) q"
proof (cases "children data")
  case None
  then show ?thesis
    by (simp add: visibleFrom_def has_children_def)
next
  case (Some cs)
  show ?thesis
  proof (cases "i < length cs")
    case True
    then have "has_children data"
      using Some by (auto simp: has_children_def)
    with True Some show ?thesis
      by (auto simp add: visibleFrom_def All_less_Suc2)
  next
    case False
    with Some show ?thesis
      by (simp add: visibleFrom_def)
  qed
qed

lemma subtreeAt_Cons:
  "has_children data \<Longrightarrow> i < length (the (children data)) \<Longrightarrow>
   subtreeAt data (i # q) = subtreeAt (the (children data) ! i) q"
  by (auto simp: has_children_def split: option.splits)

lemma visibleNodes_visibleFrom:
  shows "P \<noteq> [] \<Longrightarrow>
      (q, t) \<in> set (visibleNodes d S P) \<longleftrightarrow> visibleFrom d S P q \<and> subtreeAt d q = Some t"
    and "P \<noteq> [] \<Longrightarrow> (q, t) \<in> set (visibleChildren cs S P j) \<longleftrightarrow>
      (\<exists>i q'. q = (j + i) # q' \<and> i < length cs \<and>
         visibleFrom (cs ! i) S (P @ enc [j + i]) q' \<and> subtreeAt (cs ! i) q' = Some t)"
proof (induction d S P and cs S P j arbitrary: q t and q t rule: visibleNodes_visibleChildren.induct)
  case (1 data S P)
  let ?cs = "the (children data)"
  show ?case
  proof (cases "has_children data \<and> P \<notin> S")
    case True
    note IH = 1(1) [OF True 1(2)]
    show ?thesis
    proof (cases q)
      case Nil
      with True show ?thesis
        by (auto simp: visibleNodes.simps IH)
    next
      case (Cons i q')
      with True show ?thesis
        by (auto simp add: visibleNodes.simps IH visibleFrom_Cons subtreeAt_Cons
            simp del: subtreeAt.simps)
    qed
  next
    case False
    then show ?thesis
      by (cases q) (auto simp: visibleNodes.simps visibleFrom_Cons)
  qed
next
  case (2 S P j)
  show ?case by simp
next
  case (3 child rest S P j)
  have Pj: "nodeIdOf (Some P) j \<noteq> []" by (rule nodeIdOf_nonempty)
  note IH1 = 3(1) [OF Pj]
  note IH2 = 3(2) [OF 3(3)]
  have "(q, t) \<in> set (visibleChildren (child # rest) S P j) \<longleftrightarrow>
      (\<exists>q'. q = j # q' \<and> (q', t) \<in> set (visibleNodes child S (nodeIdOf (Some P) j)))
      \<or> (q, t) \<in> set (visibleChildren rest S P (j + 1))"
    by auto
  also have "\<dots> \<longleftrightarrow>
      (\<exists>q'. q = j # q' \<and> visibleFrom child S (P @ enc [j]) q' \<and> subtreeAt child q' = Some t)
      \<or> (\<exists>i q'. q = (j + 1 + i) # q' \<and> i < length rest \<and>
         visibleFrom (rest ! i) S (P @ enc [j + 1 + i]) q' \<and> subtreeAt (rest ! i) q' = Some t)"
    unfolding IH1 IH2 using 3(3) by (simp add: nodeIdOf_child)
  also have "\<dots> \<longleftrightarrow> (\<exists>i q'. q = (j + i) # q' \<and> i < length (child # rest) \<and>
         visibleFrom ((child # rest) ! i) S (P @ enc [j + i]) q' \<and>
         subtreeAt ((child # rest) ! i) q' = Some t)"
    (is "?A \<or> ?B \<longleftrightarrow> ?C")
  proof
    assume "?A \<or> ?B"
    then show ?C
    proof
      assume ?A
      then obtain q' where "q = (j + 0) # q' \<and> 0 < length (child # rest) \<and>
         visibleFrom ((child # rest) ! 0) S (P @ enc [j + 0]) q' \<and>
         subtreeAt ((child # rest) ! 0) q' = Some t"
        by auto
      then show ?C by blast
    next
      assume ?B
      then obtain i q' where "q = (j + Suc i) # q' \<and> Suc i < length (child # rest) \<and>
         visibleFrom ((child # rest) ! Suc i) S (P @ enc [j + Suc i]) q' \<and>
         subtreeAt ((child # rest) ! Suc i) q' = Some t"
        by auto
      then show ?C by blast
    qed
  next
    assume ?C
    then obtain i q' where c: "q = (j + i) # q'" "i < length (child # rest)"
         "visibleFrom ((child # rest) ! i) S (P @ enc [j + i]) q'"
         "subtreeAt ((child # rest) ! i) q' = Some t"
      by blast
    show "?A \<or> ?B"
    proof (cases i)
      case 0
      with c have ?A by simp
      then show ?thesis ..
    next
      case (Suc i')
      with c have "q = (j + 1 + i') # q' \<and> i' < length rest \<and>
         visibleFrom (rest ! i') S (P @ enc [j + 1 + i']) q' \<and> subtreeAt (rest ! i') q' = Some t"
        by simp
      then have ?B by blast
      then show ?thesis ..
    qed
  qed
  finally show ?case .
qed

lemma visibleNodes_distinct:
  shows "distinct (map fst (visibleNodes d S P))"
    and "distinct (map fst (visibleChildren cs S P j))"
proof (induction d S P and cs S P j rule: visibleNodes_visibleChildren.induct)
  case (1 data S P)
  show ?case
  proof (cases "has_children data \<and> P \<notin> S")
    case True
    have "[] \<notin> fst ` set (visibleChildren (the (children data)) S P 0)"
      using visibleChildren_heads by fastforce
    with 1 [OF True] True show ?thesis
      by (simp add: visibleNodes.simps)
  next
    case False
    then show ?thesis by (auto simp: visibleNodes.simps)
  qed
next
  case (2 S P j)
  show ?case by simp
next
  case (3 child rest S P j)
  have "distinct (map fst (map (\<lambda>(q, t). (j # q, t)) (visibleNodes child S (nodeIdOf (Some P) j))))"
    using 3(1) by (simp add: distinct_map o_def split_def inj_on_def)
  moreover have "set (map fst (map (\<lambda>(q, t). (j # q, t))
        (visibleNodes child S (nodeIdOf (Some P) j))))
      \<inter> set (map fst (visibleChildren rest S P (j + 1))) = {}"
  proof -
    have "hd q = j" if "q \<in> set (map fst (map (\<lambda>(q, t). (j # q, t))
        (visibleNodes child S (nodeIdOf (Some P) j))))" for q
      using that by auto
    moreover have "hd q \<noteq> j" if "q \<in> set (map fst (visibleChildren rest S P (j + 1)))" for q
      using that visibleChildren_heads [of _ rest S P "j + 1"] by fastforce
    ultimately show ?thesis by blast
  qed
  moreover have "distinct (map fst (visibleChildren rest S P (j + 1)))"
    using 3(2) .
  ultimately have "distinct (map fst (map (\<lambda>(q, t). (j # q, t))
        (visibleNodes child S (nodeIdOf (Some P) j))) @ map fst (visibleChildren rest S P (j + 1)))"
    by (simp only: distinct_append)
  then show ?case
    by simp
qed

lemma visible_iff: "visible d S p \<longleftrightarrow> p \<in> fst ` set (visibleNodes d S ''n0'')"
proof -
  have "visible d S p \<longleftrightarrow> visibleFrom d S ''n0'' p"
    by (simp add: visible_def visibleFrom_def pathId_enc)
  also have "\<dots> \<longleftrightarrow> (\<exists>t. (p, t) \<in> set (visibleNodes d S ''n0''))"
    by (auto simp: visibleNodes_visibleFrom(1) visibleFrom_def)
  finally show ?thesis by force
qed

lemma card_visible: "card {p. visible d S p} = length (visibleNodes d S ''n0'')"
proof -
  have "{p. visible d S p} = set (map fst (visibleNodes d S ''n0''))"
    by (auto simp: visible_iff)
  then show ?thesis
    using visibleNodes_distinct(1) [of d S "''n0''"] by (metis distinct_card length_map)
qed

lemma visible_visibleNodes:
  "visible d S p \<and> subtreeAt d p = Some t \<longleftrightarrow> (p, t) \<in> set (visibleNodes d S ''n0'')"
proof -
  have "visible d S p \<longleftrightarrow> visibleFrom d S ''n0'' p"
    by (simp add: visible_def visibleFrom_def pathId_enc)
  then show ?thesis
    using visibleNodes_visibleFrom(1) [of "''n0''" p t d S] by simp
qed

subsection \<open>The layout the component receives\<close>

lemma mindMapLayout_nodes:
  "fst (mindMapLayout d S) =
     fst (generateMindMapNodesAndEdges nodeHeight levelWidth d S None [] [] 0 0 0)"
  by (simp add: mindMapLayout_def split: prod.splits)

lemma mindMapLayout_edges:
  "snd (mindMapLayout d S) =
     fst (snd (generateMindMapNodesAndEdges nodeHeight levelWidth d S None [] [] 0 0 0))"
  by (simp add: mindMapLayout_def split: prod.splits)

lemma nodeIdOf_root [simp]: "nodeIdOf None index = ''n0''"
  by (simp add: nodeIdOf_def truthy_def)

lemma layout_rows:
  "map (\<lambda>n. n\<lparr>position_y := 0\<rparr>) (fst (mindMapLayout d S)) =
     map (rowOf levelWidth S ''n0'' 1) (visibleNodes d S ''n0'')"
  using shape(1) [of nodeHeight levelWidth d S None "[]" "[]" 0 0 0]
  by (auto simp: mindMapLayout_nodes)

lemma layout_length: "length (fst (mindMapLayout d S)) = length (visibleNodes d S ''n0'')"
  using layout_rows [of d S] by (metis length_map)

lemma layout_ids:
  "map node_id (fst (mindMapLayout d S)) = map (\<lambda>p. pathId (fst p)) (visibleNodes d S ''n0'')"
  using node_ids(1) [of nodeHeight levelWidth d S None "[]" "[]" 0 0 0]
  by (auto simp: mindMapLayout_nodes pathId_enc)

lemma layout_labels:
  "map label (fst (mindMapLayout d S)) = map (\<lambda>p. data_text (snd p)) (visibleNodes d S ''n0'')"
proof -
  have "map label (map (\<lambda>n. n\<lparr>position_y := 0\<rparr>) (fst (mindMapLayout d S))) =
      map label (map (rowOf levelWidth S ''n0'' 1) (visibleNodes d S ''n0''))"
    by (simp only: layout_rows)
  then show ?thesis
    by (simp add: o_def rowOf_def mkNode_def split_def)
qed

subsection \<open>The calls of one layout and what they start from\<close>

lemma freshFor_Nil [simp]: "freshFor P []"
  by (simp add: freshFor_def)

lemma forEachChild_append:
  "forEachChild nh lw (xs @ ys) S P nodes edges lvl j cur hs =
     (case forEachChild nh lw xs S P nodes edges lvl j cur hs of
        (nodes1, edges1, cur1, hs1) \<Rightarrow>
          forEachChild nh lw ys S P nodes1 edges1 lvl (j + length xs) cur1 hs1)"
proof (induction xs arbitrary: nodes edges j cur hs)
  case Nil
  show ?case by simp
next
  case (Cons x xs)
  show ?case
    by (simp add: Cons.IH split: prod.splits)
qed

lemma forEachChild_split:
  assumes "i < length cs"
  shows "forEachChild nh lw cs S P nodes edges lvl 0 cur hs =
     (case forEachChild nh lw (take i cs) S P nodes edges lvl 0 cur hs of
        (nodes1, edges1, cur1, hs1) \<Rightarrow>
          (case generateMindMapNodesAndEdges nh lw (cs ! i) S (Some P) nodes1 edges1 lvl i cur1 of
             (nodes2, edges2, height) \<Rightarrow>
               forEachChild nh lw (drop (Suc i) cs) S P nodes2 edges2 lvl (i + 1) (cur1 + height)
                 (hs1 @ [height])))"
proof -
  have "cs = take i cs @ cs ! i # drop (Suc i) cs"
    using assms by (rule id_take_nth_drop)
  then have "forEachChild nh lw cs S P nodes edges lvl 0 cur hs =
      forEachChild nh lw (take i cs @ cs ! i # drop (Suc i) cs) S P nodes edges lvl 0 cur hs"
    by simp
  also have "\<dots> = (case forEachChild nh lw (take i cs) S P nodes edges lvl 0 cur hs of
        (nodes1, edges1, cur1, hs1) \<Rightarrow>
          forEachChild nh lw (cs ! i # drop (Suc i) cs) S P nodes1 edges1 lvl
            (0 + length (take i cs)) cur1 hs1)"
    by (rule forEachChild_append)
  finally show ?thesis
    using assms by (simp add: min_absorb2 split: prod.splits)
qed

lemma calls_invariant:
  assumes "calls tree S (d, pid, acc, es, lvl, idx, y0)"
  shows "freshFor (nodeIdOf pid idx) acc \<and> 0 \<le> y0"
  using assms
proof (induction "(d, pid, acc, es, lvl, idx, y0)" arbitrary: d pid acc es lvl idx y0 rule: calls.induct)
  case top
  show ?case by (simp add: freshFor_def)
next
  case (child data parentId nodes edges level index yOffset i nodes1 edges1 currentY childHeights)
  let ?P = "nodeIdOf parentId index"
  let ?cs = "take i (the (children data))"
  from child(2) have fresh: "freshFor ?P nodes" and y0: "0 \<le> yOffset"
    by simp_all
  have P: "?P \<noteq> []" by (rule nodeIdOf_nonempty)
  from node_ids(2) [OF P, of nodeHeight levelWidth ?cs S nodes edges "level + 1" 0 yOffset "[]"]
    child(6)
  obtain new where new: "nodes1 = nodes @ new"
    "map node_id new = map (\<lambda>p. ?P @ enc (fst p)) (visibleChildren ?cs S ?P 0)"
    by auto
  have "node_id n \<noteq> nodeIdOf (Some ?P) i @ enc q" if "n \<in> set nodes" for n q
    using fresh that P unfolding freshFor_def
    by (metis nodeIdOf_child append_assoc enc_append)
  moreover have "node_id n \<noteq> nodeIdOf (Some ?P) i @ enc q" if "n \<in> set new" for n q
  proof -
    from that have "node_id n \<in> set (map (\<lambda>p. ?P @ enc (fst p)) (visibleChildren ?cs S ?P 0))"
      using new(2) by (metis image_eqI set_map)
    then obtain p where p: "p \<in> set (visibleChildren ?cs S ?P 0)" "node_id n = ?P @ enc (fst p)"
      by auto
    from visibleChildren_heads [OF p(1)] obtain k q' where k: "fst p = k # q'" "k < length ?cs"
      by auto
    then have "k \<noteq> i" by simp
    then have "?P @ enc (k # q') \<noteq> ?P @ enc (i # q)"
      by (rule enc_cons_neq)
    with p(2) k(1) P show ?thesis
      by (simp add: nodeIdOf_child)
  qed
  ultimately have "freshFor (nodeIdOf (Some ?P) i) nodes1"
    unfolding freshFor_def new(1) by auto
  moreover from leaf_rows(2) [of nodeHeight levelWidth ?cs S ?P nodes edges "level + 1" 0 yOffset "[]"]
    child(6) y0
  have "0 \<le> currentY"
    by (auto simp: nodeHeight_def)
  ultimately show ?case by simp
qed

subsection \<open>A parent of leaf rows\<close>

lemma forEach_leaves:
  assumes "\<forall>i < length cs. \<not> (has_children (cs ! i) \<and> nodeIdOf (Some P) (j + i) \<notin> S)"
  shows "fst (forEachChild nh lw cs S P acc es lvl j cur hs) =
     acc @ map (\<lambda>i. mkNode (nodeIdOf (Some P) (j + i)) lvl lw (cur + nh * real i)
                      (data_text (cs ! i)) (has_children (cs ! i))
                      (nodeIdOf (Some P) (j + i) \<in> S)) [0..<length cs]"
  using assms
proof (induction cs arbitrary: acc es j cur hs)
  case Nil
  show ?case by simp
next
  case (Cons c cs)
  from Cons.prems have c: "\<not> (has_children c \<and> nodeIdOf (Some P) j \<notin> S)"
    by fastforce
  from Cons.prems have rest: "\<forall>i < length cs. \<not> (has_children (cs ! i) \<and>
      nodeIdOf (Some P) (Suc j + i) \<notin> S)"
    by fastforce
  show ?case
    using c by (simp add: gen_leaf Cons.IH [OF rest] map_upt_Suc algebra_simps del: upt_Suc)
qed

lemma gen_parent_nodes:
  assumes "has_children d" and "nodeIdOf pid idx \<notin> S"
  shows "\<exists>own. fst (generateMindMapNodesAndEdges nh lw d S pid acc es lvl idx y0) =
      fst (forEachChild nh lw (the (children d)) S (nodeIdOf pid idx) acc es (lvl + 1) 0 y0 [])
        @ [own]"
  using assms
  by (cases "forEachChild nh lw (the (children d)) S (nodeIdOf pid idx) acc es (lvl + 1) 0 y0 []")
    (simp add: gen_parent)

subsection \<open>A leaf id in the collapse set\<close>

lemma find_markCollapsed:
  "find (\<lambda>n. node_id n = cid) (map (markCollapsed l) nodes) =
     map_option (markCollapsed l) (find (\<lambda>n. node_id n = cid) nodes)"
  by (induction nodes) (auto simp: markCollapsed_def)

lemma childY_markCollapsed [simp]:
  "childY (map (markCollapsed l) nodes) cid y0 = childY nodes cid y0"
  by (auto simp: childY_def find_markCollapsed markCollapsed_def split: option.splits)

lemma markCollapsed_mkNode:
  "markCollapsed l (mkNode i lvl lw v t hc ic) = mkNode i lvl lw v t hc (i = l \<or> ic)"
  by (simp add: markCollapsed_def mkNode_def)

lemma leaf_id_insert:
  shows "(\<forall>q t. subtreeAt d q = Some t \<and> has_children t \<longrightarrow> nodeIdOf pid idx @ enc q \<noteq> l) \<Longrightarrow>
      generateMindMapNodesAndEdges nh lw d (insert l S) pid (map (markCollapsed l) acc) es lvl idx y0 =
        (case generateMindMapNodesAndEdges nh lw d S pid acc es lvl idx y0 of
           (nodes1, edges1, height) \<Rightarrow> (map (markCollapsed l) nodes1, edges1, height))"
    and "P \<noteq> [] \<Longrightarrow>
      (\<forall>i < length cs. \<forall>q t. subtreeAt (cs ! i) q = Some t \<and> has_children t \<longrightarrow>
          P @ enc ((j + i) # q) \<noteq> l) \<Longrightarrow>
      forEachChild nh lw cs (insert l S) P (map (markCollapsed l) acc) es lvl j cur hs =
        (case forEachChild nh lw cs S P acc es lvl j cur hs of
           (nodes1, edges1, cur1, hs1) \<Rightarrow> (map (markCollapsed l) nodes1, edges1, cur1, hs1))"
proof (induction nh lw d S pid acc es lvl idx y0 and nh lw cs S P acc es lvl j cur hs
    rule: generateMindMapNodesAndEdges_forEachChild.induct)
  case (1 nh lw data S parentId nodes edges level index yOffset)
  let ?P = "nodeIdOf parentId index"
  let ?cs = "the (children data)"
  have Pl: "?P \<noteq> l" if "has_children data"
    using 1(2) that by (metis append_Nil2 enc.simps(1) subtreeAt.simps(1))
  show ?case
  proof (cases "has_children data \<and> ?P \<notin> S")
    case True
    have kids: "\<forall>i < length ?cs. \<forall>q t. subtreeAt (?cs ! i) q = Some t \<and> has_children t \<longrightarrow>
        ?P @ enc ((0 + i) # q) \<noteq> l"
    proof (intro allI impI)
      fix i q t
      assume "i < length ?cs" "subtreeAt (?cs ! i) q = Some t \<and> has_children t"
      with True have "subtreeAt data (i # q) = Some t \<and> has_children t"
        by (simp add: subtreeAt_Cons del: subtreeAt.simps)
      with 1(2) show "?P @ enc ((0 + i) # q) \<noteq> l"
        by (metis add_0)
    qed
    obtain nodes1 edges1 cur1 hs1 where r:
      "forEachChild nh lw ?cs S ?P nodes edges (level + 1) 0 yOffset [] = (nodes1, edges1, cur1, hs1)"
      by (cases "forEachChild nh lw ?cs S ?P nodes edges (level + 1) 0 yOffset []") auto
    from 1(1) [OF refl refl refl _ nodeIdOf_nonempty kids] True r
    have r': "forEachChild nh lw ?cs (insert l S) ?P (map (markCollapsed l) nodes) edges (level + 1)
        0 yOffset [] = (map (markCollapsed l) nodes1, edges1, cur1, hs1)"
      by simp
    from True Pl have cond: "has_children data" "?P \<notin> insert l S" "?P \<notin> S"
      by simp_all
    show ?thesis
      using Pl cond(1) r r'
      by (simp add: gen_parent [OF cond(1,2)] gen_parent [OF cond(1,3)] markCollapsed_mkNode)
  next
    case False
    then have "\<not> (has_children data \<and> ?P \<notin> insert l S)"
      by simp
    with False show ?thesis
      by (simp add: gen_leaf markCollapsed_mkNode)
  qed
next
  case (2 nh lw S nodeId nodes edges level childIndex currentY childHeights)
  show ?case by simp
next
  case (3 nh lw child rest S nodeId nodes edges level childIndex currentY childHeights)
  let ?g = "generateMindMapNodesAndEdges nh lw child S (Some nodeId) nodes edges level childIndex
      currentY"
  obtain nodes1 edges1 height where r: "?g = (nodes1, edges1, height)"
    by (cases ?g) auto
  have first: "\<forall>q t. subtreeAt child q = Some t \<and> has_children t \<longrightarrow>
      nodeIdOf (Some nodeId) childIndex @ enc q \<noteq> l"
  proof (intro allI impI)
    fix q t assume "subtreeAt child q = Some t \<and> has_children t"
    with 3(4) have "nodeId @ enc ((childIndex + 0) # q) \<noteq> l"
      by fastforce
    with 3(3) show "nodeIdOf (Some nodeId) childIndex @ enc q \<noteq> l"
      by (simp add: nodeIdOf_child)
  qed
  have others: "\<forall>i < length rest. \<forall>q t. subtreeAt (rest ! i) q = Some t \<and> has_children t \<longrightarrow>
      nodeId @ enc ((childIndex + 1 + i) # q) \<noteq> l"
  proof (intro allI impI)
    fix i q t assume "i < length rest" "subtreeAt (rest ! i) q = Some t \<and> has_children t"
    then have "Suc i < length (child # rest)"
      "subtreeAt ((child # rest) ! Suc i) q = Some t \<and> has_children t"
      by simp_all
    with 3(4) have "nodeId @ enc ((childIndex + Suc i) # q) \<noteq> l"
      by blast
    then show "nodeId @ enc ((childIndex + 1 + i) # q) \<noteq> l"
      by simp
  qed
  from 3(1) [OF first] r
  have g': "generateMindMapNodesAndEdges nh lw child (insert l S) (Some nodeId)
      (map (markCollapsed l) nodes) edges level childIndex currentY =
      (map (markCollapsed l) nodes1, edges1, height)"
    by simp
  from 3(2) [OF r [symmetric] refl 3(3) others] r g'
  show ?case
    by simp
qed

subsection \<open>Rounding to binary64\<close>

text \<open>
  The rounding is monotone and idempotent, its values are the numbers
  \<open>m * 2 ^ s / 2 ^ 1074\<close> with \<open>\<bar>m\<bar> \<le> 2 ^ 53\<close>, each of which it leaves as it is, and so it
  leaves the integers up to \<open>2 ^ 53\<close> and the double of a value as they are.
\<close>

lemma rte_bounds: "\<lfloor>q\<rfloor> \<le> roundTiesToEven q \<and> roundTiesToEven q \<le> \<lfloor>q\<rfloor> + 1"
  by (simp add: roundTiesToEven_def Let_def)

lemma rte_of_int [simp]: "roundTiesToEven (of_int k) = k"
  by (simp add: roundTiesToEven_def)

lemma rte_zero [simp]: "roundTiesToEven 0 = 0"
  using rte_of_int [of 0] by simp

lemma nat_53_plus [simp]: "nat (53 + int s) = 53 + s"
  by (simp add: nat_add_distrib)

lemma rte_mono: "q \<le> q' \<Longrightarrow> roundTiesToEven q \<le> roundTiesToEven q'"
proof -
  assume le: "q \<le> q'"
  then have fl: "\<lfloor>q\<rfloor> \<le> \<lfloor>q'\<rfloor>" by (rule floor_mono)
  show ?thesis
  proof (cases "\<lfloor>q\<rfloor> = \<lfloor>q'\<rfloor>")
    case True
    with le have "q - of_int \<lfloor>q\<rfloor> \<le> q' - of_int \<lfloor>q'\<rfloor>" by simp
    with True show ?thesis
      by (auto simp: roundTiesToEven_def Let_def)
  next
    case False
    with fl have "\<lfloor>q\<rfloor> + 1 \<le> \<lfloor>q'\<rfloor>" by simp
    with rte_bounds [of q] rte_bounds [of q'] show ?thesis by linarith
  qed
qed

lemma rte_ge: "of_int k \<le> q \<Longrightarrow> k \<le> roundTiesToEven q"
  using rte_mono [of "of_int k" q] by simp

lemma rte_le: "q \<le> of_int k \<Longrightarrow> roundTiesToEven q \<le> k"
  using rte_mono [of q "of_int k"] by simp

lemma roundScaled_range:
  assumes "0 \<le> t"
  shows "\<exists>m s. roundScaled t = of_int m * 2 ^ s \<and> 0 \<le> m \<and> m \<le> 2 ^ 53"
proof -
  define s where "s = nat (bitlen \<lfloor>t\<rfloor> - 53)"
  define m where "m = roundTiesToEven (t / 2 ^ s)"
  have eq: "roundScaled t = of_int m * 2 ^ s"
    by (simp add: roundScaled_def s_def m_def Let_def)
  have "bitlen \<lfloor>t\<rfloor> \<le> int (53 + s)"
    by (simp add: s_def)
  then have "\<lfloor>t\<rfloor> < 2 ^ (53 + s)"
    by (simp add: bitlen_le_iff_power)
  then have "\<lfloor>t\<rfloor> + 1 \<le> 2 ^ (53 + s)"
    by simp
  then have "of_int (\<lfloor>t\<rfloor> + 1) \<le> (2 ^ (53 + s) :: real)"
    by (metis of_int_le_iff of_int_numeral of_int_power)
  moreover have "t < of_int (\<lfloor>t\<rfloor> + 1)"
    by linarith
  ultimately have "t \<le> 2 ^ (53 + s)"
    by linarith
  then have "t / 2 ^ s \<le> of_int (2 ^ 53)"
    by (simp add: divide_le_eq power_add)
  then have "m \<le> 2 ^ 53"
    unfolding m_def by (rule rte_le)
  moreover have "of_int 0 \<le> t / 2 ^ s"
    using assms by simp
  then have "0 \<le> m"
    unfolding m_def by (rule rte_ge)
  ultimately show ?thesis
    using eq by blast
qed

lemma roundScaled_fixed_lt:
  assumes "0 \<le> k" and "k < 2 ^ 53"
  shows "roundScaled (of_int k * 2 ^ e) = of_int k * 2 ^ e"
proof (cases "k = 0")
  case True
  then show ?thesis
    by (simp add: roundScaled_def)
next
  case False
  with assms have k: "0 < k" by simp
  have int: "of_int k * 2 ^ e = (of_int (k * 2 ^ e) :: real)"
    by simp
  from assms(2) have "bitlen k \<le> 53"
    by (simp add: bitlen_le_iff_power)
  define s where "s = nat (bitlen k + int e - 53)"
  from \<open>bitlen k \<le> 53\<close> have se: "s \<le> e"
    by (simp add: s_def)
  have s: "nat (bitlen \<lfloor>of_int k * 2 ^ e :: real\<rfloor> - 53) = s"
    unfolding int floor_of_int using k by (simp add: s_def)
  have "(of_int k * 2 ^ e :: real) / 2 ^ s = of_int k * 2 ^ (e - s)"
    using se by (simp add: power_diff)
  also have "\<dots> = of_int (k * 2 ^ (e - s))"
    by simp
  finally have "roundTiesToEven ((of_int k * 2 ^ e :: real) / 2 ^ s) = k * 2 ^ (e - s)"
    by (simp only: rte_of_int)
  then have "roundScaled (of_int k * 2 ^ e) = of_int (k * 2 ^ (e - s)) * 2 ^ s"
    by (simp add: roundScaled_def s Let_def)
  also have "\<dots> = of_int k * (2 ^ (e - s) * 2 ^ s)"
    by simp
  also have "\<dots> = of_int k * 2 ^ e"
    using se by (simp flip: power_add)
  finally show ?thesis .
qed

lemma roundScaled_fixed:
  assumes "0 \<le> k" and "k \<le> 2 ^ 53"
  shows "roundScaled (of_int k * 2 ^ e) = of_int k * 2 ^ e"
proof (cases "k = 2 ^ 53")
  case True
  have "roundScaled (of_int (2 ^ 52) * 2 ^ (e + 1)) = of_int (2 ^ 52) * 2 ^ (e + 1)"
    by (rule roundScaled_fixed_lt) simp_all
  with True show ?thesis
    by simp
next
  case False
  with assms show ?thesis
    by (intro roundScaled_fixed_lt) simp_all
qed

lemma roundScaled_idem: "0 \<le> t \<Longrightarrow> roundScaled (roundScaled t) = roundScaled t"
  using roundScaled_range [of t] roundScaled_fixed by auto

lemma roundScaled_nonneg: "0 \<le> t \<Longrightarrow> 0 \<le> roundScaled t"
  using roundScaled_range [of t] by auto

lemma roundScaled_mono:
  assumes "0 \<le> t" and "t \<le> t'"
  shows "roundScaled t \<le> roundScaled t'"
proof -
  define s where "s = nat (bitlen \<lfloor>t\<rfloor> - 53)"
  define s' where "s' = nat (bitlen \<lfloor>t'\<rfloor> - 53)"
  have r: "roundScaled t = of_int (roundTiesToEven (t / 2 ^ s)) * 2 ^ s"
    and r': "roundScaled t' = of_int (roundTiesToEven (t' / 2 ^ s')) * 2 ^ s'"
    by (simp_all add: roundScaled_def s_def s'_def Let_def)
  from assms have fl: "\<lfloor>t\<rfloor> \<le> \<lfloor>t'\<rfloor>" "0 \<le> \<lfloor>t\<rfloor>"
    by (simp_all add: floor_mono)
  have "bitlen \<lfloor>t\<rfloor> \<le> bitlen \<lfloor>t'\<rfloor>"
    using fl by (simp add: bitlen_def floorlog_mono nat_mono)
  then have ss: "s \<le> s'"
    by (simp add: s_def s'_def)
  show ?thesis
  proof (cases "s = s'")
    case True
    from assms(2) have "t / 2 ^ s \<le> t' / 2 ^ s"
      by (simp add: divide_right_mono)
    then have "roundTiesToEven (t / 2 ^ s) \<le> roundTiesToEven (t' / 2 ^ s)"
      by (rule rte_mono)
    with True show ?thesis
      unfolding r r' by simp
  next
    case False
    with ss have lt: "s < s'" by simp
    have "bitlen \<lfloor>t\<rfloor> \<le> int (53 + s)"
      by (simp add: s_def)
    then have "\<lfloor>t\<rfloor> + 1 \<le> 2 ^ (53 + s)"
      by (simp add: bitlen_le_iff_power)
    then have "of_int (\<lfloor>t\<rfloor> + 1) \<le> (2 ^ (53 + s) :: real)"
      by (metis of_int_le_iff of_int_numeral of_int_power)
    moreover have "t < of_int (\<lfloor>t\<rfloor> + 1)"
      by linarith
    ultimately have "t \<le> 2 ^ (53 + s)"
      by linarith
    then have "t / 2 ^ s \<le> of_int (2 ^ 53)"
      by (simp add: divide_le_eq power_add)
    then have "roundTiesToEven (t / 2 ^ s) \<le> 2 ^ 53"
      by (rule rte_le)
    then have "of_int (roundTiesToEven (t / 2 ^ s)) \<le> (2 ^ 53 :: real)"
      by (metis of_int_le_iff of_int_numeral of_int_power)
    then have up: "roundScaled t \<le> 2 ^ 53 * 2 ^ s"
      unfolding r by simp
    from lt have "int (53 + s') \<le> bitlen \<lfloor>t'\<rfloor>"
      by (simp add: s'_def)
    then have "2 ^ (52 + s') \<le> \<lfloor>t'\<rfloor>"
      using lt by (simp add: bitlen_ge_iff_power)
    then have "(2 ^ (52 + s') :: real) \<le> of_int \<lfloor>t'\<rfloor>"
      by (metis of_int_le_iff of_int_numeral of_int_power)
    also have "\<dots> \<le> t'"
      by simp
    finally have "of_int (2 ^ 52) \<le> t' / 2 ^ s'"
      by (simp add: le_divide_eq power_add)
    then have "2 ^ 52 \<le> roundTiesToEven (t' / 2 ^ s')"
      by (rule rte_ge)
    then have "(2 ^ 52 :: real) \<le> of_int (roundTiesToEven (t' / 2 ^ s'))"
      by (metis of_int_le_iff of_int_numeral of_int_power)
    then have lo: "2 ^ 52 * 2 ^ s' \<le> roundScaled t'"
      unfolding r' by simp
    from lt have "53 + s \<le> 52 + s'" by simp
    then have "(2 ^ (53 + s) :: real) \<le> 2 ^ (52 + s')"
      by (intro power_increasing) simp_all
    with up lo show ?thesis
      by (simp add: power_add)
  qed
qed

lemma subnormalScale_pos [simp]: "0 < subnormalScale"
  by (simp add: subnormalScale_def)

lemma subnormalScale_nonneg [simp]: "0 \<le> subnormalScale"
  by (simp add: subnormalScale_def)

lemma subnormalScale_neq_0 [simp]: "subnormalScale \<noteq> 0"
  by (simp add: subnormalScale_def)

lemma binary64_zero [simp]: "binary64 0 = 0"
  by (simp add: binary64_def)

lemma binary64_minus: "binary64 (- x) = - binary64 x"
  by (simp add: binary64_def sgn_minus)

lemma binary64_nonneg_eq:
  "0 \<le> x \<Longrightarrow> binary64 x = roundScaled (x * subnormalScale) / subnormalScale"
  by (cases "x = 0") (simp_all add: binary64_def roundScaled_def)

lemma binary64_nonneg: "0 \<le> x \<Longrightarrow> 0 \<le> binary64 x"
  by (simp add: binary64_nonneg_eq roundScaled_nonneg)

lemma binary64_mono_nonneg: "0 \<le> x \<Longrightarrow> x \<le> y \<Longrightarrow> binary64 x \<le> binary64 y"
  by (simp add: binary64_nonneg_eq roundScaled_mono divide_right_mono)

lemma binary64_mono: "x \<le> y \<Longrightarrow> binary64 x \<le> binary64 y"
proof -
  assume le: "x \<le> y"
  consider "0 \<le> x" | "x < 0" "0 \<le> y" | "y < 0" using le by linarith
  then show ?thesis
  proof cases
    case 1
    then show ?thesis using le by (rule binary64_mono_nonneg)
  next
    case 2
    then have "0 \<le> binary64 (- x)" "0 \<le> binary64 y"
      by (simp_all add: binary64_nonneg)
    then show ?thesis
      by (simp add: binary64_minus)
  next
    case 3
    with le have "binary64 (- y) \<le> binary64 (- x)"
      by (intro binary64_mono_nonneg) simp_all
    then show ?thesis
      by (simp add: binary64_minus)
  qed
qed

lemma binary64_scaled:
  assumes "0 \<le> k" and "k \<le> 2 ^ 53"
  shows "binary64 (of_int k * 2 ^ e / subnormalScale) = of_int k * 2 ^ e / subnormalScale"
proof -
  have "0 \<le> of_int k * 2 ^ e / subnormalScale"
    using assms(1) by simp
  then show ?thesis
    by (simp add: binary64_nonneg_eq roundScaled_fixed [OF assms])
qed

lemma binary64_form:
  assumes "0 \<le> x"
  shows "\<exists>m s. binary64 x = of_int m * 2 ^ s / subnormalScale \<and> 0 \<le> m \<and> m \<le> 2 ^ 53"
proof -
  from assms have "0 \<le> x * subnormalScale" by simp
  from roundScaled_range [OF this] show ?thesis
    by (auto simp: binary64_nonneg_eq [OF assms])
qed

lemma binary64_idem: "binary64 (binary64 x) = binary64 x"
proof -
  have nonneg: "binary64 (binary64 x) = binary64 x" if "0 \<le> x" for x
  proof -
    from binary64_form [OF that] obtain m s where
      "binary64 x = of_int m * 2 ^ s / subnormalScale" "0 \<le> m" "m \<le> 2 ^ 53"
      by blast
    then show ?thesis
      by (simp only: binary64_scaled)
  qed
  show ?thesis
  proof (cases "0 \<le> x")
    case True
    then show ?thesis by (rule nonneg)
  next
    case False
    then have "binary64 (binary64 (- x)) = binary64 (- x)"
      by (intro nonneg) simp
    then show ?thesis
      by (simp add: binary64_minus)
  qed
qed

lemma binary64_double: "binary64 x = x \<Longrightarrow> binary64 (2 * x) = 2 * x"
proof -
  have nonneg: "binary64 (2 * x) = 2 * x" if "binary64 x = x" "0 \<le> x" for x
  proof -
    from binary64_form [OF that(2)] that(1)
    obtain m s where m: "x = of_int m * 2 ^ s / subnormalScale" "0 \<le> m" "m \<le> 2 ^ 53"
      by auto
    then have "2 * x = of_int m * 2 ^ (s + 1) / subnormalScale"
      by simp
    then show ?thesis
      by (simp only: binary64_scaled [OF m(2,3)])
  qed
  assume fixed: "binary64 x = x"
  show ?thesis
  proof (cases "0 \<le> x")
    case True
    with fixed show ?thesis by (rule nonneg)
  next
    case False
    with fixed have "binary64 (2 * (- x)) = 2 * (- x)"
      by (intro nonneg) (simp_all add: binary64_minus)
    then show ?thesis
      using binary64_minus [of "2 * x"] by simp
  qed
qed

lemma binary64_of_int:
  assumes "\<bar>k\<bar> \<le> 2 ^ 53"
  shows "binary64 (of_int k) = of_int k"
proof -
  have nonneg: "binary64 (of_int k) = of_int k" if "0 \<le> k" "k \<le> 2 ^ 53" for k
  proof -
    have "of_int k * 2 ^ 1074 / subnormalScale = of_int k"
      unfolding subnormalScale_def by simp
    with binary64_scaled [OF that, of 1074] show ?thesis
      by simp
  qed
  show ?thesis
  proof (cases "0 \<le> k")
    case True
    with assms show ?thesis by (intro nonneg) simp_all
  next
    case False
    with assms have "binary64 (of_int (- k)) = of_int (- k)"
      by (intro nonneg) simp_all
    then show ?thesis
      using binary64_minus [of "of_int k"] by simp
  qed
qed

lemma binary64_numeral:
  "numeral n \<le> (2 ^ 53 :: int) \<Longrightarrow> binary64 (numeral n) = numeral n"
  using binary64_of_int [of "numeral n"] by simp

text \<open>A value with 54 significant bits loses the last one, rounded to nearest, ties to even.\<close>

lemma roundScaled_54_bits:
  assumes "2 ^ 53 \<le> k" and "k < 2 ^ 54"
  shows "roundScaled (of_int k * 2 ^ e) = of_int (roundTiesToEven (of_int k / 2)) * 2 ^ (e + 1)"
proof -
  from assms(1) have k: "0 < k"
    by (rule less_le_trans [rotated]) simp
  from assms have "bitlen k = 54"
    using bitlen_le_iff_power [of k 54] bitlen_ge_iff_power [of 54 k] by simp
  with k have "bitlen (k * 2 ^ e) = 54 + int e"
    by (simp add: bitlen_pow2)
  moreover have "\<lfloor>of_int k * 2 ^ e :: real\<rfloor> = k * 2 ^ e"
    by (metis floor_of_int of_int_mult of_int_numeral of_int_power)
  ultimately have s: "nat (bitlen \<lfloor>of_int k * 2 ^ e :: real\<rfloor> - 53) = e + 1"
    by simp
  have q: "(of_int k * 2 ^ e :: real) / 2 ^ (e + 1) = of_int k / 2"
    by simp
  have "roundScaled (of_int k * 2 ^ e) =
      of_int (roundTiesToEven ((of_int k * 2 ^ e :: real) / 2 ^ (e + 1))) * 2 ^ (e + 1)"
    unfolding roundScaled_def s Let_def ..
  then show ?thesis
    unfolding q .
qed

lemma binary64_54_bits:
  assumes "2 ^ 53 \<le> k" and "k < 2 ^ 54"
  shows "binary64 (of_int k * 2 ^ e / subnormalScale) =
     of_int (roundTiesToEven (of_int k / 2)) * 2 ^ (e + 1) / subnormalScale"
proof -
  from assms(1) have "0 \<le> k"
    by (rule order_trans [rotated]) simp
  then have "0 \<le> of_int k * 2 ^ e / subnormalScale"
    by simp
  then show ?thesis
    by (simp add: binary64_nonneg_eq roundScaled_54_bits [OF assms] del: power_Suc)
qed

text \<open>
  An instance in which the rounding shows. The sum needs a 54th significand bit, the tie
  goes to the even significand, and the value of \<^verbatim>\<open>(a + b) / 2\<close> is not the exact midpoint
  of \<open>a\<close> and \<open>b\<close>.
\<close>

lemma rounded_midpoint:
  "jsDiv (jsAdd 240 (8444249301319665 / 2 ^ 44)) 2 = 6333186975989752 / 2 ^ 44
   \<and> (240 + 8444249301319665 / 2 ^ 44) / 2 \<noteq> (6333186975989752 / 2 ^ 44 :: real)"
proof -
  have scale: "subnormalScale = 2 ^ 1030 * 2 ^ 44"
    unfolding subnormalScale_def by (simp flip: power_add)
  have "(240 :: real) + 8444249301319665 / 2 ^ 44 = 12666373951979505 / 2 ^ 44"
    by simp
  also have "\<dots> = of_int 12666373951979505 * 2 ^ 1030 / subnormalScale"
    unfolding scale by simp
  finally have "jsAdd 240 (8444249301319665 / 2 ^ 44) =
      binary64 (of_int 12666373951979505 * 2 ^ 1030 / subnormalScale)"
    unfolding jsAdd_def by (rule arg_cong)
  also have "\<dots> =
      of_int (roundTiesToEven (of_int 12666373951979505 / 2)) * 2 ^ (1030 + 1) / subnormalScale"
    by (rule binary64_54_bits) simp_all
  also have "roundTiesToEven (of_int 12666373951979505 / 2) = 6333186975989752"
    by (simp add: roundTiesToEven_def Let_def)
  finally have sum: "jsAdd 240 (8444249301319665 / 2 ^ 44) =
      of_int 6333186975989752 * 2 ^ (1030 + 1) / subnormalScale" .
  have "of_int 6333186975989752 * 2 ^ (1030 + 1) / subnormalScale / 2 =
      of_int 6333186975989752 * 2 ^ 1030 / subnormalScale"
    by (simp only: power_add) simp
  then have "jsDiv (jsAdd 240 (8444249301319665 / 2 ^ 44)) 2 =
      binary64 (of_int 6333186975989752 * 2 ^ 1030 / subnormalScale)"
    unfolding jsDiv_def sum by (rule arg_cong)
  also have "\<dots> = of_int 6333186975989752 * 2 ^ 1030 / subnormalScale"
    by (rule binary64_scaled) simp_all
  also have "\<dots> = 6333186975989752 / 2 ^ 44"
    unfolding scale by simp
  finally have "jsDiv (jsAdd 240 (8444249301319665 / 2 ^ 44)) 2 = 6333186975989752 / 2 ^ 44" .
  then show ?thesis
    by simp
qed

subsection \<open>The layout in binary64 arithmetic\<close>

text \<open>
  The cursor of every call is a binary64 value, so adding a height to it and rounding
  does not take it back, and the rounded midpoint of two values at or below the cursor is
  at or below the cursor. With that, the lookups find the nodes of the first and the last
  child and the fallback of lines 116-121 changes nothing, as in exact arithmetic.
\<close>

declare generateMindMapNodesAndEdges64.simps [simp del]

lemma jsAdd_fixed [simp]: "binary64 (jsAdd a b) = jsAdd a b"
  by (simp add: jsAdd_def binary64_idem)

lemma jsAdd_ge: "binary64 a = a \<Longrightarrow> 0 \<le> b \<Longrightarrow> a \<le> jsAdd a b"
  unfolding jsAdd_def using binary64_mono [of a "a + b"] by simp

lemma jsAdd_nonneg: "0 \<le> a \<Longrightarrow> 0 \<le> b \<Longrightarrow> 0 \<le> jsAdd a b"
  by (simp add: jsAdd_def binary64_nonneg)

lemma centerY_ge:
  assumes "binary64 y0 = y0" and "y0 \<le> a" and "y0 \<le> b"
  shows "y0 \<le> jsDiv (jsAdd a b) 2"
proof -
  from assms(2,3) have "2 * y0 \<le> a + b" by simp
  then have "binary64 (2 * y0) \<le> jsAdd a b"
    unfolding jsAdd_def by (rule binary64_mono)
  with assms(1) have "y0 \<le> jsAdd a b / 2"
    by (simp add: binary64_double)
  then have "binary64 y0 \<le> jsDiv (jsAdd a b) 2"
    unfolding jsDiv_def by (rule binary64_mono)
  with assms(1) show ?thesis by simp
qed

lemma position_y_mkNode64 [simp]: "position_y (mkNode64 i l v t hc ic) = v"
  by (simp add: mkNode64_def)

lemma node_id_mkNode64 [simp]: "node_id (mkNode64 i l v t hc ic) = i"
  by (simp add: mkNode64_def)

lemma gen64_leaf:
  "\<not> (has_children data \<and> nodeIdOf parentId index \<notin> collapsedNodes) \<Longrightarrow>
   generateMindMapNodesAndEdges64 data collapsedNodes parentId nodes edges level index yOffset =
     (nodes @ [mkNode64 (nodeIdOf parentId index) level yOffset (data_text data)
                 (has_children data) (nodeIdOf parentId index \<in> collapsedNodes)],
      pushEdge parentId (nodeIdOf parentId index) edges, nodeHeight)"
  by (auto simp add: generateMindMapNodesAndEdges64.simps Let_def)

lemma gen64_parent:
  "has_children data \<Longrightarrow> nodeIdOf parentId index \<notin> collapsedNodes \<Longrightarrow>
   generateMindMapNodesAndEdges64 data collapsedNodes parentId nodes edges level index yOffset =
     (case forEachChild64 (the (children data)) collapsedNodes (nodeIdOf parentId index)
             nodes edges (level + 1) 0 yOffset [] of
        (nodes1, edges1, currentY, childHeights) \<Rightarrow>
          (nodes1 @ [mkNode64 (nodeIdOf parentId index) level
               (jsDiv (jsAdd (childY nodes1 (nodeIdOf parentId index @ ''-'' @ toString 0) yOffset)
                  (childY nodes1 (nodeIdOf parentId index @ ''-'' @
                    toString (length (the (children data)) - 1)) yOffset)) 2)
               (data_text data) True False],
           pushEdge parentId (nodeIdOf parentId index) edges1,
           foldl jsAdd 0 childHeights))"
  by (simp add: generateMindMapNodesAndEdges64.simps Let_def)

lemma foldl_jsAdd_nonneg: "0 \<le> a \<Longrightarrow> \<forall>h \<in> set hs. 0 \<le> h \<Longrightarrow> 0 \<le> foldl jsAdd a hs"
  by (induction hs arbitrary: a) (simp_all add: jsAdd_nonneg)

lemma heights64:
  shows "0 \<le> snd (snd (generateMindMapNodesAndEdges64 d S pid acc es lvl idx y0))"
    and "\<forall>h \<in> set hs. 0 \<le> h \<Longrightarrow>
      \<forall>h \<in> set (snd (snd (snd (forEachChild64 cs S P acc es lvl j cur hs)))). 0 \<le> h"
proof (induction d S pid acc es lvl idx y0 and cs S P acc es lvl j cur hs
    rule: generateMindMapNodesAndEdges64_forEachChild64.induct)
  case (1 data S parentId nodes edges level index yOffset)
  let ?P = "nodeIdOf parentId index"
  show ?case
  proof (cases "has_children data \<and> ?P \<notin> S")
    case True
    from 1 [OF refl refl refl refl] True
    have "\<forall>h \<in> set (snd (snd (snd (forEachChild64 (the (children data)) S ?P nodes edges
        (level + 1) 0 yOffset [])))). 0 \<le> h"
      by simp
    then show ?thesis
      using True by (simp add: gen64_parent split: prod.splits) (simp add: foldl_jsAdd_nonneg)
  next
    case False
    then show ?thesis
      by (simp add: gen64_leaf nodeHeight_def)
  qed
next
  case (2 S nodeId nodes edges level childIndex currentY childHeights)
  then show ?case by simp
next
  case (3 child rest S nodeId nodes edges level childIndex currentY childHeights)
  obtain nodes1 edges1 height where r:
    "generateMindMapNodesAndEdges64 child S (Some nodeId) nodes edges level childIndex currentY
      = (nodes1, edges1, height)"
    by (cases "generateMindMapNodesAndEdges64 child S (Some nodeId) nodes edges level
           childIndex currentY") auto
  from 3(1) r have "0 \<le> height" by simp
  with 3(3) have "\<forall>h \<in> set (childHeights @ [height]). 0 \<le> h" by simp
  from 3(2) [OF r [symmetric] refl this] show ?case
    using r by simp
qed

lemma node_ids64:
  shows "\<exists>new. fst (generateMindMapNodesAndEdges64 d S pid acc es lvl idx y0) = acc @ new
      \<and> map node_id new =
          map (\<lambda>p. nodeIdOf pid idx @ enc (fst p)) (visibleNodes d S (nodeIdOf pid idx))"
    and "P \<noteq> [] \<Longrightarrow> \<exists>new. fst (forEachChild64 cs S P acc es lvl j cur hs) = acc @ new
      \<and> map node_id new = map (\<lambda>p. P @ enc (fst p)) (visibleChildren cs S P j)"
proof (induction d S pid acc es lvl idx y0 and cs S P acc es lvl j cur hs
    rule: generateMindMapNodesAndEdges64_forEachChild64.induct)
  case (1 data S parentId nodes edges level index yOffset)
  let ?P = "nodeIdOf parentId index"
  show ?case
  proof (cases "has_children data \<and> ?P \<notin> S")
    case True
    from 1 [OF refl refl refl refl] True nodeIdOf_nonempty
    obtain new where new: "fst (forEachChild64 (the (children data)) S ?P nodes edges
          (level + 1) 0 yOffset []) = nodes @ new"
      "map node_id new = map (\<lambda>p. ?P @ enc (fst p)) (visibleChildren (the (children data)) S ?P 0)"
      by fastforce
    show ?thesis
      using True new
      by (auto simp: gen64_parent visibleNodes.simps split: prod.splits)
  next
    case False
    then show ?thesis
      by (auto simp: gen64_leaf visibleNodes.simps)
  qed
next
  case (2 S nodeId nodes edges level childIndex currentY childHeights)
  then show ?case by simp
next
  case (3 child rest S nodeId nodes edges level childIndex currentY childHeights)
  obtain nodes1 edges1 height where r:
    "generateMindMapNodesAndEdges64 child S (Some nodeId) nodes edges level childIndex currentY
      = (nodes1, edges1, height)"
    by (cases "generateMindMapNodesAndEdges64 child S (Some nodeId) nodes edges level
           childIndex currentY") auto
  from 3(1) r obtain new1 where new1: "nodes1 = nodes @ new1"
      "map node_id new1 =
          map (\<lambda>p. nodeIdOf (Some nodeId) childIndex @ enc (fst p))
            (visibleNodes child S (nodeIdOf (Some nodeId) childIndex))"
    by auto
  from 3(2) [OF r [symmetric] refl] 3(3)
  obtain new2 where new2: "fst (forEachChild64 rest S nodeId nodes1 edges1 level
        (childIndex + 1) (jsAdd currentY height) (childHeights @ [height])) = nodes1 @ new2"
      "map node_id new2 =
          map (\<lambda>p. nodeId @ enc (fst p)) (visibleChildren rest S nodeId (childIndex + 1))"
    by auto
  show ?case
    using r new1 new2 3(3)
    by (simp add: nodeIdOf_child split_def)
qed

lemma gen64_own_node:
  assumes "freshFor (nodeIdOf pid idx) acc"
  shows "\<exists>new own. fst (generateMindMapNodesAndEdges64 d S pid acc es lvl idx y0)
          = acc @ new @ [own]
      \<and> node_id own = nodeIdOf pid idx
      \<and> find (\<lambda>n. node_id n = nodeIdOf pid idx) (acc @ new) = None"
proof -
  let ?P = "nodeIdOf pid idx"
  obtain new where new: "fst (generateMindMapNodesAndEdges64 d S pid acc es lvl idx y0) = acc @ new"
    "map node_id new = map (\<lambda>p. ?P @ enc (fst p)) (visibleNodes d S ?P)"
    using node_ids64(1) by blast
  obtain vs where vs: "visibleNodes d S ?P = vs @ [([], d)]" "\<forall>p \<in> set vs. fst p \<noteq> []"
    using visibleNodes_own by blast
  from new(2) vs(1) have len: "length new = length vs + 1"
    by (metis length_append_singleton length_map Suc_eq_plus1)
  then obtain new' own where split: "new = new' @ [own]"
    by (metis Suc_eq_plus1 length_Suc_conv_rev)
  with new(2) vs(1) have ids: "map node_id new' = map (\<lambda>p. ?P @ enc (fst p)) vs"
    and own: "node_id own = ?P"
    by simp_all
  have "\<forall>n \<in> set new'. node_id n \<noteq> ?P"
  proof
    fix n assume "n \<in> set new'"
    then have "node_id n \<in> set (map (\<lambda>p. ?P @ enc (fst p)) vs)"
      using ids by (metis image_eqI set_map)
    then obtain p where "p \<in> set vs" "node_id n = ?P @ enc (fst p)" by auto
    with vs(2) show "node_id n \<noteq> ?P"
      by (cases "fst p") auto
  qed
  moreover have "\<forall>n \<in> set acc. node_id n \<noteq> ?P"
    using assms unfolding freshFor_def by (metis append_Nil2 enc.simps(1))
  ultimately have "find (\<lambda>n. node_id n = ?P) (acc @ new') = None"
    by (auto simp: find_None_iff')
  with new(1) split own show ?thesis by auto
qed

lemma y_lower64:
  shows "freshFor (nodeIdOf pid idx) acc \<Longrightarrow> binary64 y0 = y0 \<Longrightarrow>
      \<exists>new. fst (generateMindMapNodesAndEdges64 d S pid acc es lvl idx y0) = acc @ new
        \<and> (\<forall>n \<in> set new. y0 \<le> position_y n)"
    and "P \<noteq> [] \<Longrightarrow> freshFrom P j acc \<Longrightarrow> binary64 cur = cur \<Longrightarrow>
      \<exists>new. fst (forEachChild64 cs S P acc es lvl j cur hs) = acc @ new
        \<and> (\<forall>n \<in> set new. cur \<le> position_y n)
        \<and> (\<forall>i. j \<le> i \<and> i < j + length cs \<longrightarrow>
              (\<exists>c \<in> set new. find (\<lambda>n. node_id n = P @ enc [i]) (acc @ new) = Some c))"
proof (induction d S pid acc es lvl idx y0 and cs S P acc es lvl j cur hs
    rule: generateMindMapNodesAndEdges64_forEachChild64.induct)
  case (1 data S parentId nodes edges level index yOffset)
  let ?P = "nodeIdOf parentId index"
  show ?case
  proof (cases "has_children data \<and> ?P \<notin> S")
    case True
    let ?cs = "the (children data)"
    let ?r = "forEachChild64 ?cs S ?P nodes edges (level + 1) 0 yOffset []"
    from True have len: "0 < length ?cs"
      by (auto simp: has_children_def split: option.splits)
    from 1(1) [OF refl refl refl refl _ nodeIdOf_nonempty freshFrom_start [OF 1(2)] 1(3)] True
    obtain new where new: "fst ?r = nodes @ new"
      "\<forall>n \<in> set new. yOffset \<le> position_y n"
      "\<forall>i. i < length ?cs \<longrightarrow>
          (\<exists>c \<in> set new. find (\<lambda>n. node_id n = ?P @ enc [i]) (nodes @ new) = Some c)"
      by auto
    have lookup: "yOffset \<le> childY (nodes @ new) (?P @ enc [i]) yOffset" if "i < length ?cs" for i
    proof (rule childY_ge)
      fix c assume "find (\<lambda>n. node_id n = ?P @ enc [i]) (nodes @ new) = Some c"
      with new(3) that have "c \<in> set new" by auto
      with new(2) show "yOffset \<le> position_y c" by simp
    qed
    from len have "yOffset \<le> childY (nodes @ new) (?P @ enc [0]) yOffset"
      "yOffset \<le> childY (nodes @ new) (?P @ enc [length ?cs - 1]) yOffset"
      by (simp_all add: lookup del: enc.simps)
    with 1(3) have "yOffset \<le> jsDiv (jsAdd (childY (nodes @ new) (?P @ ''-'' @ toString 0) yOffset)
        (childY (nodes @ new) (?P @ ''-'' @ toString (length ?cs - 1)) yOffset)) 2"
      by (intro centerY_ge) simp_all
    with True new(1,2) show ?thesis
      by (auto simp: gen64_parent split: prod.splits)
  next
    case False
    then show ?thesis
      by (auto simp: gen64_leaf)
  qed
next
  case (2 S nodeId nodes edges level childIndex currentY childHeights)
  then show ?case by simp
next
  case (3 child rest S nodeId nodes edges level childIndex currentY childHeights)
  let ?Pj = "nodeIdOf (Some nodeId) childIndex"
  let ?g = "generateMindMapNodesAndEdges64 child S (Some nodeId) nodes edges level childIndex
      currentY"
  obtain nodes1 edges1 height where r: "?g = (nodes1, edges1, height)"
    by (cases ?g) auto
  let ?r = "forEachChild64 rest S nodeId nodes1 edges1 level
        (childIndex + 1) (jsAdd currentY height) (childHeights @ [height])"
  have step: "forEachChild64 (child # rest) S nodeId nodes edges level childIndex currentY
       childHeights = ?r"
    using r by simp
  have fresh: "freshFor ?Pj nodes"
    using 3(3,4) by (rule freshFor_child [rotated])
  from 3(1) [OF fresh 3(5)] r obtain new1 where new1: "nodes1 = nodes @ new1"
      "\<forall>n \<in> set new1. currentY \<le> position_y n"
    by auto
  from gen64_own_node [OF fresh, of child S edges level currentY] r
  obtain new' own where own: "nodes1 = nodes @ new' @ [own]" "node_id own = ?Pj"
      "find (\<lambda>n. node_id n = ?Pj) (nodes @ new') = None"
    by auto
  from own(1) new1(1) have new1_split: "new1 = new' @ [own]" by simp
  from own(2,3) have find_own: "find (\<lambda>n. node_id n = ?Pj) nodes1 = Some own"
    by (simp add: own(1) find_append_None flip: append_assoc)
  from node_ids64(1) [of child S "Some nodeId" nodes edges level childIndex currentY] r new1(1)
  have ids: "map node_id new1 = map (\<lambda>p. ?Pj @ enc (fst p)) (visibleNodes child S ?Pj)"
    by auto
  have fresh': "freshFrom nodeId (childIndex + 1) nodes1"
    unfolding new1(1) using 3(4,3) ids by (rule freshFrom_step)
  from heights64(1) [of child S "Some nodeId" nodes edges level childIndex currentY] r
  have "0 \<le> height" by simp
  with 3(5) have advance: "currentY \<le> jsAdd currentY height"
    by (rule jsAdd_ge)
  from 3(2) [OF r [symmetric] refl 3(3) fresh' jsAdd_fixed]
  obtain new2 where new2: "fst ?r = nodes1 @ new2"
      "\<forall>n \<in> set new2. jsAdd currentY height \<le> position_y n"
      "\<forall>i. childIndex + 1 \<le> i \<and> i < childIndex + 1 + length rest \<longrightarrow>
          (\<exists>c \<in> set new2. find (\<lambda>n. node_id n = nodeId @ enc [i]) (nodes1 @ new2) = Some c)"
    by auto
  have a: "fst ?r = nodes @ (new1 @ new2)"
    using new1(1) new2(1) by simp
  have b: "\<forall>n \<in> set (new1 @ new2). currentY \<le> position_y n"
    using new1(2) new2(2) advance by fastforce
  have c: "\<exists>c \<in> set (new1 @ new2).
      find (\<lambda>n. node_id n = nodeId @ enc [i]) (nodes @ (new1 @ new2)) = Some c"
    if "childIndex \<le> i" "i < childIndex + length (child # rest)" for i
  proof (cases "i = childIndex")
    case True
    from find_own have "find (\<lambda>n. node_id n = ?Pj) (nodes1 @ new2) = Some own"
      by (rule find_append_Some)
    with True new1(1) new1_split 3(3) show ?thesis
      by (simp add: nodeIdOf_child)
  next
    case False
    with that have "childIndex + 1 \<le> i \<and> i < childIndex + 1 + length rest"
      by simp
    with new2(3) obtain c where "c \<in> set new2"
      "find (\<lambda>n. node_id n = nodeId @ enc [i]) (nodes1 @ new2) = Some c"
      by blast
    with new1(1) show ?thesis by auto
  qed
  from a b c show ?case
    unfolding step by blast
qed

lemma centred64I:
  "find (\<lambda>n. node_id n = i) nodes = Some n \<Longrightarrow>
   find (\<lambda>n. node_id n = i @ enc [0]) nodes = Some c0 \<Longrightarrow>
   find (\<lambda>n. node_id n = i @ enc [k - 1]) nodes = Some ck \<Longrightarrow>
   position_y n = jsDiv (jsAdd (position_y c0) (position_y ck)) 2 \<Longrightarrow> centred64 nodes i k"
  by (simp add: centred64_def)

lemma centred64_append: "centred64 nodes i k \<Longrightarrow> centred64 (nodes @ rest) i k"
  by (auto simp: centred64_def find_append_Some split: option.splits)

lemma midpoints64:
  shows "freshFor (nodeIdOf pid idx) acc \<Longrightarrow> binary64 y0 = y0 \<Longrightarrow> 0 \<le> y0 \<Longrightarrow>
      \<forall>p \<in> set (visibleNodes d S (nodeIdOf pid idx)).
        has_children (snd p) \<and> nodeIdOf pid idx @ enc (fst p) \<notin> S \<longrightarrow>
        centred64 (fst (generateMindMapNodesAndEdges64 d S pid acc es lvl idx y0))
          (nodeIdOf pid idx @ enc (fst p)) (length (the (children (snd p))))"
    and "P \<noteq> [] \<Longrightarrow> freshFrom P j acc \<Longrightarrow> binary64 cur = cur \<Longrightarrow> 0 \<le> cur \<Longrightarrow>
      \<forall>p \<in> set (visibleChildren cs S P j).
        has_children (snd p) \<and> P @ enc (fst p) \<notin> S \<longrightarrow>
        centred64 (fst (forEachChild64 cs S P acc es lvl j cur hs))
          (P @ enc (fst p)) (length (the (children (snd p))))"
proof (induction d S pid acc es lvl idx y0 and cs S P acc es lvl j cur hs
    rule: generateMindMapNodesAndEdges64_forEachChild64.induct)
  case (1 data S parentId nodes edges level index yOffset)
  let ?P = "nodeIdOf parentId index"
  let ?g = "generateMindMapNodesAndEdges64 data S parentId nodes edges level index yOffset"
  show ?case
  proof (cases "has_children data \<and> ?P \<notin> S")
    case True
    let ?cs = "the (children data)"
    let ?r = "forEachChild64 ?cs S ?P nodes edges (level + 1) 0 yOffset []"
    from True have len: "0 < length ?cs"
      by (auto simp: has_children_def split: option.splits)
    have fresh0: "freshFrom ?P 0 nodes"
      using 1(2) by (rule freshFrom_start)
    let ?y = "jsDiv (jsAdd (childY (fst ?r) (?P @ ''-'' @ toString 0) yOffset)
        (childY (fst ?r) (?P @ ''-'' @ toString (length ?cs - 1)) yOffset)) 2"
    let ?own = "mkNode64 ?P level ?y (data_text data) True False"
    have g: "fst ?g = fst ?r @ [?own]"
      using True by (simp add: gen64_parent split: prod.splits)
    from 1(1) [OF refl refl refl refl _ nodeIdOf_nonempty fresh0 1(3) 1(4)] True
    have kids: "\<forall>p \<in> set (visibleChildren ?cs S ?P 0).
        has_children (snd p) \<and> ?P @ enc (fst p) \<notin> S \<longrightarrow>
        centred64 (fst ?r) (?P @ enc (fst p)) (length (the (children (snd p))))"
      by simp
    from y_lower64(2) [OF nodeIdOf_nonempty fresh0 1(3), of ?cs S edges "level + 1" "[]"]
    obtain new where new: "fst ?r = nodes @ new"
      "\<forall>n \<in> set new. yOffset \<le> position_y n"
      "\<forall>i. i < length ?cs \<longrightarrow>
          (\<exists>c \<in> set new. find (\<lambda>n. node_id n = ?P @ enc [i]) (nodes @ new) = Some c)"
      by auto
    have lookup: "\<exists>c. find (\<lambda>n. node_id n = ?P @ enc [i]) (fst ?r) = Some c
        \<and> childY (fst ?r) (?P @ enc [i]) yOffset = position_y c" if "i < length ?cs" for i
    proof -
      from new(3) that obtain c where c: "c \<in> set new"
        "find (\<lambda>n. node_id n = ?P @ enc [i]) (nodes @ new) = Some c"
        by blast
      with new(2) have "yOffset \<le> position_y c" by simp
      with c(2) 1(4) show ?thesis
        unfolding new(1) by (metis childY_exact)
    qed
    from lookup [of 0] len obtain c0 where c0:
        "find (\<lambda>n. node_id n = ?P @ enc [0]) (fst ?r) = Some c0"
        "childY (fst ?r) (?P @ enc [0]) yOffset = position_y c0"
      by blast
    from lookup [of "length ?cs - 1"] len obtain ck where ck:
        "find (\<lambda>n. node_id n = ?P @ enc [length ?cs - 1]) (fst ?r) = Some ck"
        "childY (fst ?r) (?P @ enc [length ?cs - 1]) yOffset = position_y ck"
      by auto
    from gen64_own_node [OF 1(2), of data S edges level yOffset] g
    have "find (\<lambda>n. node_id n = ?P) (fst ?r) = None"
      by auto
    then have own: "find (\<lambda>n. node_id n = ?P) (fst ?g) = Some ?own"
      unfolding g by (simp add: find_append_None)
    have "position_y ?own = jsDiv (jsAdd (position_y c0) (position_y ck)) 2"
      using c0(2) ck(2) by simp
    with own c0(1) ck(1) have root: "centred64 (fst ?g) ?P (length ?cs)"
      unfolding g by (intro centred64I [where n = ?own and ?c0.0 = c0 and ck = ck])
        (simp_all add: find_append_Some del: enc.simps)
    show ?thesis
    proof
      fix p assume p: "p \<in> set (visibleNodes data S ?P)"
      with True have "p \<in> set (visibleChildren ?cs S ?P 0) \<or> p = ([], data)"
        by (auto simp: visibleNodes.simps)
      then show "has_children (snd p) \<and> ?P @ enc (fst p) \<notin> S \<longrightarrow>
          centred64 (fst ?g) (?P @ enc (fst p)) (length (the (children (snd p))))"
      proof
        assume "p \<in> set (visibleChildren ?cs S ?P 0)"
        with kids show ?thesis
          unfolding g using centred64_append by blast
      next
        assume "p = ([], data)"
        with root show ?thesis by simp
      qed
    qed
  next
    case False
    then show ?thesis
      by (auto simp: visibleNodes.simps)
  qed
next
  case (2 S nodeId nodes edges level childIndex currentY childHeights)
  then show ?case by simp
next
  case (3 child rest S nodeId nodes edges level childIndex currentY childHeights)
  let ?Pj = "nodeIdOf (Some nodeId) childIndex"
  let ?g = "generateMindMapNodesAndEdges64 child S (Some nodeId) nodes edges level childIndex
      currentY"
  obtain nodes1 edges1 height where r: "?g = (nodes1, edges1, height)"
    by (cases ?g) auto
  let ?r = "forEachChild64 rest S nodeId nodes1 edges1 level
        (childIndex + 1) (jsAdd currentY height) (childHeights @ [height])"
  have step: "forEachChild64 (child # rest) S nodeId nodes edges level childIndex currentY
       childHeights = ?r"
    using r by simp
  have fresh: "freshFor ?Pj nodes"
    using 3(4,3) by (rule freshFor_child)
  from node_ids64(1) [of child S "Some nodeId" nodes edges level childIndex currentY] r
  obtain new1 where new1: "nodes1 = nodes @ new1"
    "map node_id new1 = map (\<lambda>p. ?Pj @ enc (fst p)) (visibleNodes child S ?Pj)"
    by auto
  have fresh': "freshFrom nodeId (childIndex + 1) nodes1"
    unfolding new1(1) using 3(4,3) new1(2) by (rule freshFrom_step)
  from heights64(1) [of child S "Some nodeId" nodes edges level childIndex currentY] r
  have height: "0 \<le> height" by simp
  from node_ids64(2) [OF 3(3), of rest S nodes1 edges1 level "childIndex + 1"
      "jsAdd currentY height" "childHeights @ [height]"]
  obtain new2 where new2: "fst ?r = nodes1 @ new2"
    by auto
  from 3(1) [OF fresh 3(5) 3(6)] r
  have kid: "\<forall>p \<in> set (visibleNodes child S ?Pj).
        has_children (snd p) \<and> ?Pj @ enc (fst p) \<notin> S \<longrightarrow>
        centred64 nodes1 (?Pj @ enc (fst p)) (length (the (children (snd p))))"
    by simp
  from 3(6) height have "0 \<le> jsAdd currentY height" by (rule jsAdd_nonneg)
  from 3(2) [OF r [symmetric] refl 3(3) fresh' jsAdd_fixed this]
  have others: "\<forall>p \<in> set (visibleChildren rest S nodeId (childIndex + 1)).
        has_children (snd p) \<and> nodeId @ enc (fst p) \<notin> S \<longrightarrow>
        centred64 (fst ?r) (nodeId @ enc (fst p)) (length (the (children (snd p))))"
    by simp
  show ?case
    unfolding step
  proof
    fix p assume "p \<in> set (visibleChildren (child # rest) S nodeId childIndex)"
    then have "p \<in> set (map (\<lambda>(q, t). (childIndex # q, t)) (visibleNodes child S ?Pj))
        \<or> p \<in> set (visibleChildren rest S nodeId (childIndex + 1))"
      by simp
    then show "has_children (snd p) \<and> nodeId @ enc (fst p) \<notin> S \<longrightarrow>
        centred64 (fst ?r) (nodeId @ enc (fst p)) (length (the (children (snd p))))"
    proof
      assume "p \<in> set (map (\<lambda>(q, t). (childIndex # q, t)) (visibleNodes child S ?Pj))"
      then obtain p' where p': "p' \<in> set (visibleNodes child S ?Pj)"
          "p = (childIndex # fst p', snd p')"
        by auto
      have eq: "nodeId @ enc (fst p) = ?Pj @ enc (fst p')" "snd p = snd p'"
        using p'(2) 3(3) by (simp_all add: nodeIdOf_child)
      show ?thesis
      proof
        assume "has_children (snd p) \<and> nodeId @ enc (fst p) \<notin> S"
        with kid p'(1) eq
        have "centred64 nodes1 (?Pj @ enc (fst p')) (length (the (children (snd p'))))"
          by simp
        then show "centred64 (fst ?r) (nodeId @ enc (fst p)) (length (the (children (snd p))))"
          unfolding new2 eq by (rule centred64_append)
      qed
    next
      assume "p \<in> set (visibleChildren rest S nodeId (childIndex + 1))"
      with others show ?thesis by blast
    qed
  qed
qed

lemma mindMapLayout64_nodes:
  "fst (mindMapLayout64 d S) = fst (generateMindMapNodesAndEdges64 d S None [] [] 0 0 0)"
  by (simp add: mindMapLayout64_def split: prod.splits)

lemma jsAdd_numeral [simp]:
  "numeral m + numeral n \<le> (2 ^ 53 :: int) \<Longrightarrow>
     jsAdd (numeral m) (numeral n) = numeral m + numeral n"
  unfolding jsAdd_def using binary64_of_int [of "numeral m + numeral n"] by simp

lemma jsAdd_zero_numeral [simp]:
  "numeral n \<le> (2 ^ 53 :: int) \<Longrightarrow> jsAdd 0 (numeral n) = numeral n"
  unfolding jsAdd_def using binary64_of_int [of "numeral n"] by simp

section \<open>The claims\<close>

subsection \<open>C1: one node per visible tree node, one edge fewer\<close>

text \<open>
  C1. With \<open>k\<close> the number of visible positions of the tree (\<open>visible\<close>: the position
  exists and no proper ancestor both has children and is in the collapse set; the root is
  always visible, so \<open>k > 0\<close>), the layout returns exactly \<open>k\<close> nodes and exactly \<open>k - 1\<close>
  edges; a root without children gives one node and no edge.
\<close>

theorem node_and_edge_counts:
  "length (fst (mindMapLayout d S)) = card {p. visible d S p}
   \<and> length (snd (mindMapLayout d S)) = card {p. visible d S p} - 1
   \<and> 0 < card {p. visible d S p}
   \<and> (\<not> has_children d \<longrightarrow> length (fst (mindMapLayout d S)) = 1 \<and> snd (mindMapLayout d S) = [])"
proof -
  have nodes: "length (fst (mindMapLayout d S)) = card {p. visible d S p}"
    by (simp add: layout_length card_visible)
  have "length (snd (mindMapLayout d S)) + 1 = length (visibleNodes d S ''n0'')"
    using edges_count(1) [of nodeHeight levelWidth d S None "[]" "[]" 0 0 0]
    by (simp add: mindMapLayout_edges truthy_def)
  then have edges: "length (snd (mindMapLayout d S)) + 1 = card {p. visible d S p}"
    by (simp add: card_visible)
  have "visibleNodes d S ''n0'' = [([], d)]" if "\<not> has_children d"
    using that by (simp add: visibleNodes.simps)
  then have "card {p. visible d S p} = 1" if "\<not> has_children d"
    using that by (simp add: card_visible)
  with nodes edges show ?thesis
    by auto
qed

theorem node_and_edge_counts_witness:
  "length (fst (mindMapLayout scenarioTree {''n0-1''})) = 3
   \<and> card {p. visible scenarioTree {''n0-1''} p} = 3
   \<and> length (snd (mindMapLayout scenarioTree {''n0-1''})) = 2
   \<and> \<not> has_children (MindMapData ''A'' None)
   \<and> length (fst (mindMapLayout (MindMapData ''A'' None) {})) = 1
   \<and> snd (mindMapLayout (MindMapData ''A'' None) {}) = []"
proof -
  have "length (fst (mindMapLayout scenarioTree {''n0-1''})) = 3"
    by code_simp
  moreover have "\<not> has_children (MindMapData ''A'' None)"
    by (simp add: has_children_def)
  ultimately show ?thesis
    using node_and_edge_counts [of scenarioTree "{''n0-1''}"]
      node_and_edge_counts [of "MindMapData ''A'' None" "{}"]
    by simp
qed

subsection \<open>C2: an expanded parent sits midway between its first and its last child\<close>

text \<open>
  C2. In the layout computed in binary64 arithmetic, for every visible position \<open>p\<close>
  whose subtree has children and whose id is not in the collapse set, the array holds
  the node of that position, the node of its first child and the node of its last child,
  and the \<open>y\<close> of the first is the value of \<^verbatim>\<open>(firstChildY + lastChildY) / 2\<close> at the \<open>y\<close> of
  the other two (\<open>centred64\<close>): the sum rounded, then the half of it rounded. For a parent
  with two children that is \<^verbatim>\<open>(child0.y + child1.y) / 2\<close>.
\<close>

theorem parents_centred_binary64:
  "visible d S p \<and> subtreeAt d p = Some t \<and> has_children t \<and> pathId p \<notin> S \<longrightarrow>
     centred64 (fst (mindMapLayout64 d S)) (pathId p) (length (the (children t)))"
proof
  assume a: "visible d S p \<and> subtreeAt d p = Some t \<and> has_children t \<and> pathId p \<notin> S"
  then have "(p, t) \<in> set (visibleNodes d S ''n0'')"
    using visible_visibleNodes [of d S p t] by simp
  with midpoints64(1) [of None 0 "[]" 0 d S "[]" 0] a
  show "centred64 (fst (mindMapLayout64 d S)) (pathId p) (length (the (children t)))"
    by (fastforce simp add: mindMapLayout64_nodes pathId_enc)
qed

theorem parents_centred_binary64_witness:
  "visible scenarioTree {} [1]
   \<and> subtreeAt scenarioTree [1] =
       Some (MindMapData ''C'' (Some [MindMapData ''D'' None, MindMapData ''E'' None]))
   \<and> has_children (MindMapData ''C'' (Some [MindMapData ''D'' None, MindMapData ''E'' None]))
   \<and> pathId [1] = ''n0-1''
   \<and> centred64 (fst (mindMapLayout64 scenarioTree {})) ''n0-1'' 2
   \<and> map (\<lambda>n. (node_id n, position_y n)) (fst (mindMapLayout64 scenarioTree {})) =
       [(''n0-0'', 0), (''n0-1-0'', 120), (''n0-1-1'', 240), (''n0-1'', 180), (''n0'', 90)]"
proof -
  let ?C = "MindMapData ''C'' (Some [MindMapData ''D'' None, MindMapData ''E'' None])"
  have s: "subtreeAt scenarioTree [1] = Some ?C"
    by (simp add: scenarioTree_def)
  have v: "visible scenarioTree {} [1]"
    by (simp add: visible_def s) (simp add: scenarioTree_def)
  have h: "has_children ?C"
    by (simp add: has_children_def)
  have i: "pathId [1] = ''n0-1''"
    by (simp add: pathId_enc toString.simps digit_def)
  have d: "jsDiv 360 2 = 180" "jsDiv 180 2 = 90"
    unfolding jsDiv_def using binary64_of_int [of 180] binary64_of_int [of 90] by simp_all
  have l: "map (\<lambda>n. (node_id n, position_y n)) (fst (mindMapLayout64 scenarioTree {})) =
       [(''n0-0'', 0), (''n0-1-0'', 120), (''n0-1-1'', 240), (''n0-1'', 180), (''n0'', 90)]"
    by (simp add: mindMapLayout64_def scenarioTree_def generateMindMapNodesAndEdges64.simps
        has_children_def nodeIdOf_def truthy_def toString.simps digit_def childY_def pushEdge_def
        nodeHeight_def d Let_def)
  from parents_centred_binary64 [of scenarioTree "{}" "[1]" ?C] v s h
  have "centred64 (fst (mindMapLayout64 scenarioTree {})) (pathId [1]) 2"
    by (simp add: numeral_2_eq_2)
  with v s h i l show ?thesis
    by simp
qed

subsection \<open>C3: the concrete scenario, nothing collapsed\<close>

text \<open>
  C3. On the tree \<open>A(B, C(D, E))\<close> with the source's spacing (\<open>nodeHeight = 120\<close>,
  \<open>levelWidth = 300\<close>) and the empty collapse set, the layout emits, in post-order, the
  nodes \<open>B\<close> with id \<open>n0-0\<close> at \<open>(300, 0)\<close>, \<open>D\<close> with id \<open>n0-1-0\<close> at \<open>(600, 120)\<close>, \<open>E\<close>
  with id \<open>n0-1-1\<close> at \<open>(600, 240)\<close>, \<open>C\<close> with id \<open>n0-1\<close> at \<open>(300, 180)\<close> and \<open>A\<close> with id
  \<open>n0\<close> at \<open>(0, 90)\<close>.
\<close>

theorem scenario_expanded:
  "map (\<lambda>n. (label n, node_id n, position_x n, position_y n)) (fst (mindMapLayout scenarioTree {})) =
     [(''B'', ''n0-0'', 300, 0), (''D'', ''n0-1-0'', 600, 120), (''E'', ''n0-1-1'', 600, 240),
      (''C'', ''n0-1'', 300, 180), (''A'', ''n0'', 0, 90)]"
  by code_simp

subsection \<open>C4: the concrete scenario, \<open>C\<close> collapsed\<close>

text \<open>
  C4. On the same tree with the collapse set \<open>{n0-1}\<close> the nodes are exactly \<open>B\<close>, \<open>C\<close> and
  \<open>A\<close>, so \<open>D\<close> (\<open>n0-1-0\<close>) and \<open>E\<close> (\<open>n0-1-1\<close>) are absent, and the edges are exactly
  \<open>n0 \<rightarrow> n0-0\<close> and \<open>n0 \<rightarrow> n0-1\<close>; \<open>C\<close> is emitted at \<open>y = 120\<close> with \<open>hasChildren\<close> and
  \<open>isCollapsed\<close> both true; the call for \<open>C\<close> (child 1 of \<open>n0\<close>, level 1, cursor 120)
  returns the height \<open>120\<close>; and the root \<open>A\<close> has \<open>y = 60\<close>.
\<close>

theorem scenario_collapsed:
  "map (\<lambda>n. (label n, node_id n, position_y n, hasChildren n, isCollapsed n))
       (fst (mindMapLayout scenarioTree {''n0-1''})) =
     [(''B'', ''n0-0'', 0, False, False), (''C'', ''n0-1'', 120, True, True),
      (''A'', ''n0'', 60, True, False)]
   \<and> map (\<lambda>e. (source e, target e)) (snd (mindMapLayout scenarioTree {''n0-1''})) =
     [(''n0'', ''n0-0''), (''n0'', ''n0-1'')]
   \<and> snd (snd (generateMindMapNodesAndEdges nodeHeight levelWidth
        (MindMapData ''C'' (Some [MindMapData ''D'' None, MindMapData ''E'' None]))
        {''n0-1''} (Some ''n0'') nodes edges 1 1 120)) = 120"
proof -
  have id_C: "nodeIdOf (Some ''n0'') (Suc 0) = ''n0-1''"
    by (simp add: nodeIdOf_def truthy_def toString.simps digit_def)
  have "snd (snd (generateMindMapNodesAndEdges nodeHeight levelWidth
        (MindMapData ''C'' (Some [MindMapData ''D'' None, MindMapData ''E'' None]))
        {''n0-1''} (Some ''n0'') nodes edges 1 1 120)) = 120"
    by (simp add: gen_leaf id_C nodeHeight_def)
  moreover have "map (\<lambda>n. (label n, node_id n, position_y n, hasChildren n, isCollapsed n))
       (fst (mindMapLayout scenarioTree {''n0-1''})) =
     [(''B'', ''n0-0'', 0, False, False), (''C'', ''n0-1'', 120, True, True),
      (''A'', ''n0'', 60, True, False)]"
    by code_simp
  moreover have "map (\<lambda>e. (source e, target e)) (snd (mindMapLayout scenarioTree {''n0-1''})) =
     [(''n0'', ''n0-0''), (''n0'', ''n0-1'')]"
    by code_simp
  ultimately show ?thesis by simp
qed

subsection \<open>C5: toggling twice\<close>

text \<open>
  C5. \<open>onToggle i\<close> flips the membership of \<open>i\<close> and of no other id, applying it twice gives
  the collapse set back, and the layout computed from the twice-toggled set is the layout
  computed from the original set.
\<close>

theorem toggle_twice:
  "onToggle i (onToggle i S) = S
   \<and> (i \<in> onToggle i S \<longleftrightarrow> i \<notin> S)
   \<and> (\<forall>j. j \<noteq> i \<longrightarrow> (j \<in> onToggle i S \<longleftrightarrow> j \<in> S))
   \<and> mindMapLayout d (onToggle i (onToggle i S)) = mindMapLayout d S"
proof -
  have twice: "onToggle i (onToggle i S) = S"
    by (auto simp: onToggle_def)
  moreover have "i \<in> onToggle i S \<longleftrightarrow> i \<notin> S"
    by (simp add: onToggle_def)
  moreover have "\<forall>j. j \<noteq> i \<longrightarrow> (j \<in> onToggle i S \<longleftrightarrow> j \<in> S)"
    by (simp add: onToggle_def)
  ultimately show ?thesis by simp
qed

theorem toggle_twice_witness:
  "onToggle ''n0-1'' (onToggle ''n0-1'' {''n0''}) = {''n0''}
   \<and> ''n0-1'' \<in> onToggle ''n0-1'' {''n0''}
   \<and> ''n0'' \<in> onToggle ''n0-1'' {''n0''}
   \<and> mindMapLayout scenarioTree (onToggle ''n0-1'' (onToggle ''n0-1'' {''n0''})) =
       mindMapLayout scenarioTree {''n0''}"
  using toggle_twice [of "''n0-1''" "{''n0''}" scenarioTree] by simp

subsection \<open>C6: ids are positional and unique\<close>

text \<open>
  C6. The emitted nodes are, in order, the nodes of the visible positions
  (\<open>visibleNodes\<close> lists each visible position with the subtree found there), and the node
  of position \<open>p\<close> carries the label of that subtree and the id \<open>pathId p\<close>. \<open>pathId\<close> takes
  the position only, neither a label nor the collapse set: it is \<open>n0\<close> at the root and
  appends \<open>-i\<close> for the child of index \<open>i\<close>. It is injective, so the ids of a layout are
  pairwise distinct, and a position visible under two collapse sets has the same id in
  both layouts.
\<close>

theorem ids_are_positional:
  "map node_id (fst (mindMapLayout d S)) = map (\<lambda>p. pathId (fst p)) (visibleNodes d S ''n0'')
   \<and> map label (fst (mindMapLayout d S)) = map (\<lambda>p. data_text (snd p)) (visibleNodes d S ''n0'')
   \<and> (\<forall>p \<in> set (visibleNodes d S ''n0'').
         visible d S (fst p) \<and> subtreeAt d (fst p) = Some (snd p))
   \<and> distinct (map node_id (fst (mindMapLayout d S)))
   \<and> pathId [] = ''n0''
   \<and> (\<forall>p i. pathId (p @ [i]) = pathId p @ ''-'' @ toString i)
   \<and> (\<forall>p q. pathId p = pathId q \<longrightarrow> p = q)
   \<and> (\<forall>S' i i'. i < length (visibleNodes d S ''n0'') \<and> i' < length (visibleNodes d S' ''n0'')
         \<and> fst (visibleNodes d S ''n0'' ! i) = fst (visibleNodes d S' ''n0'' ! i')
       \<longrightarrow> node_id (fst (mindMapLayout d S) ! i) = node_id (fst (mindMapLayout d S') ! i'))"
proof -
  have pos: "\<forall>p \<in> set (visibleNodes d S ''n0'').
      visible d S (fst p) \<and> subtreeAt d (fst p) = Some (snd p)"
  proof
    fix p assume p: "p \<in> set (visibleNodes d S ''n0'')"
    then have "(fst p, snd p) \<in> set (visibleNodes d S ''n0'')" by simp
    then have "subtreeAt d (fst p) = Some (snd p)"
      using visibleNodes_visibleFrom(1) [of "''n0''" "fst p" "snd p" d S] by blast
    moreover from p have "visible d S (fst p)"
      by (simp add: visible_iff)
    ultimately show "visible d S (fst p) \<and> subtreeAt d (fst p) = Some (snd p)" by simp
  qed
  have "distinct (map pathId (map fst (visibleNodes d S ''n0'')))"
    using visibleNodes_distinct(1) [of d S "''n0''"]
    by (simp only: distinct_map) (simp add: inj_on_def pathId_inj)
  then have dist: "distinct (map node_id (fst (mindMapLayout d S)))"
    by (simp add: layout_ids o_def)
  have nth: "node_id (fst (mindMapLayout d T) ! i) = pathId (fst (visibleNodes d T ''n0'' ! i))"
    if "i < length (visibleNodes d T ''n0'')" for T i
  proof -
    have "map node_id (fst (mindMapLayout d T)) ! i =
        map (\<lambda>p. pathId (fst p)) (visibleNodes d T ''n0'') ! i"
      by (simp only: layout_ids)
    with that show ?thesis
      by (simp add: layout_length)
  qed
  have root: "pathId [] = ''n0''"
    by (simp add: pathId_enc)
  have child: "pathId (p @ [i]) = pathId p @ ''-'' @ toString i" for p i
    by (simp add: pathId_enc enc_append)
  from pos dist nth root child show ?thesis
    by (simp add: layout_ids layout_labels pathId_inj)
qed

theorem ids_are_positional_witness:
  "map node_id (fst (mindMapLayout scenarioTree {''n0-1''})) = [''n0-0'', ''n0-1'', ''n0'']
   \<and> map (\<lambda>p. pathId (fst p)) (visibleNodes scenarioTree {''n0-1''} ''n0'') =
       [''n0-0'', ''n0-1'', ''n0'']
   \<and> distinct (map node_id (fst (mindMapLayout scenarioTree {''n0-1''})))
   \<and> fst (visibleNodes scenarioTree {''n0-1''} ''n0'' ! 1) = [1]
   \<and> fst (visibleNodes scenarioTree {} ''n0'' ! 3) = [1]
   \<and> node_id (fst (mindMapLayout scenarioTree {''n0-1''}) ! 1) =
       node_id (fst (mindMapLayout scenarioTree {}) ! 3)"
proof -
  have ids: "map node_id (fst (mindMapLayout scenarioTree {''n0-1''})) = [''n0-0'', ''n0-1'', ''n0'']"
    by code_simp
  have i: "1 < length (visibleNodes scenarioTree {''n0-1''} ''n0'')"
    by code_simp
  have i': "3 < length (visibleNodes scenarioTree {} ''n0'')"
    by code_simp
  have p: "fst (visibleNodes scenarioTree {''n0-1''} ''n0'' ! 1) = [1]"
    by code_simp
  have p': "fst (visibleNodes scenarioTree {} ''n0'' ! 3) = [1]"
    by code_simp
  note inst = ids_are_positional [of scenarioTree "{''n0-1''}"]
  from inst have "\<forall>S' i i'. i < length (visibleNodes scenarioTree {''n0-1''} ''n0'')
         \<and> i' < length (visibleNodes scenarioTree S' ''n0'')
         \<and> fst (visibleNodes scenarioTree {''n0-1''} ''n0'' ! i) =
             fst (visibleNodes scenarioTree S' ''n0'' ! i')
       \<longrightarrow> node_id (fst (mindMapLayout scenarioTree {''n0-1''}) ! i) =
           node_id (fst (mindMapLayout scenarioTree S') ! i')"
    by blast
  with i i' p p' have same: "node_id (fst (mindMapLayout scenarioTree {''n0-1''}) ! 1) =
       node_id (fst (mindMapLayout scenarioTree {}) ! 3)"
    by simp
  from inst have "map node_id (fst (mindMapLayout scenarioTree {''n0-1''})) =
      map (\<lambda>p. pathId (fst p)) (visibleNodes scenarioTree {''n0-1''} ''n0'')"
    and "distinct (map node_id (fst (mindMapLayout scenarioTree {''n0-1''})))"
    by blast+
  with ids same p p' show ?thesis
    by simp
qed

subsection \<open>C7: leaf rows are one slot apart\<close>

text \<open>
  C7. In a call for an expanded node all of whose children are leaf rows (no children, or
  collapsed), the first nodes the call pushes are its children in sibling order, and
  child \<open>i\<close> is at \<open>y = yOffset + i * nodeHeight\<close>: consecutive rows are exactly
  \<open>nodeHeight\<close> apart, top to bottom. In any call, the leaf rows the call pushes lie, in
  the order pushed, at \<open>yOffset\<close>, \<open>yOffset + nodeHeight\<close>, \<open>yOffset + 2 * nodeHeight\<close>, ...,
  so of two of them the later one starts at least \<open>nodeHeight\<close> below the earlier one and
  their slots of height \<open>nodeHeight\<close> do not overlap.
\<close>

theorem leaf_rows_one_slot_apart:
  "(let new = drop (length acc)
        (fst (generateMindMapNodesAndEdges nodeHeight levelWidth d S pid acc es lvl idx y0));
        cs = the (children d);
        childId = (\<lambda>i. nodeIdOf (Some (nodeIdOf pid idx)) i);
        rows = filter leafRow new
    in (has_children d \<and> nodeIdOf pid idx \<notin> S
          \<and> (\<forall>i < length cs. \<not> (has_children (cs ! i) \<and> childId i \<notin> S))
        \<longrightarrow> take (length cs) new =
              map (\<lambda>i. mkNode (childId i) (lvl + 1) levelWidth (y0 + nodeHeight * real i)
                     (data_text (cs ! i)) (has_children (cs ! i)) (childId i \<in> S))
                [0..<length cs])
       \<and> map position_y rows = map (\<lambda>k. y0 + nodeHeight * real k) [0..<length rows]
       \<and> (\<forall>a b. a < b \<and> b < length rows \<longrightarrow>
             position_y (rows ! a) + nodeHeight \<le> position_y (rows ! b)))"
proof -
  let ?g = "generateMindMapNodesAndEdges nodeHeight levelWidth d S pid acc es lvl idx y0"
  let ?P = "nodeIdOf pid idx"
  let ?cs = "the (children d)"
  let ?rows = "filter leafRow (drop (length acc) (fst ?g))"
  have A: "take (length ?cs) (drop (length acc) (fst ?g)) =
      map (\<lambda>i. mkNode (nodeIdOf (Some ?P) i) (lvl + 1) levelWidth (y0 + nodeHeight * real i)
             (data_text (?cs ! i)) (has_children (?cs ! i)) (nodeIdOf (Some ?P) i \<in> S))
        [0..<length ?cs]"
    if "has_children d" "?P \<notin> S"
      "\<forall>i < length ?cs. \<not> (has_children (?cs ! i) \<and> nodeIdOf (Some ?P) i \<notin> S)"
  proof -
    from that(3) have "\<forall>i < length ?cs. \<not> (has_children (?cs ! i) \<and>
        nodeIdOf (Some ?P) (0 + i) \<notin> S)"
      by simp
    from forEach_leaves [OF this, of nodeHeight levelWidth acc es "lvl + 1" y0 "[]"]
    have loop: "fst (forEachChild nodeHeight levelWidth ?cs S ?P acc es (lvl + 1) 0 y0 []) =
        acc @ map (\<lambda>i. mkNode (nodeIdOf (Some ?P) i) (lvl + 1) levelWidth
               (y0 + nodeHeight * real i) (data_text (?cs ! i)) (has_children (?cs ! i))
               (nodeIdOf (Some ?P) i \<in> S)) [0..<length ?cs]"
      (is "_ = acc @ ?M")
      by simp
    from gen_parent_nodes [OF that(1,2)] obtain own where
      "fst ?g = fst (forEachChild nodeHeight levelWidth ?cs S ?P acc es (lvl + 1) 0 y0 []) @ [own]"
      by blast
    with loop have "drop (length acc) (fst ?g) = ?M @ [own]"
      by simp
    moreover have "length ?M = length ?cs"
      by simp
    ultimately show ?thesis
      by (simp del: map_eq_conv)
  qed
  from leaf_rows(1) [of nodeHeight levelWidth d S pid acc es lvl idx y0]
  have B: "map position_y ?rows = map (\<lambda>k. y0 + nodeHeight * real k) [0..<length ?rows]"
    by auto
  have C: "position_y (?rows ! a) + nodeHeight \<le> position_y (?rows ! b)"
    if "a < b" "b < length ?rows" for a b
  proof -
    have "position_y (?rows ! k) = y0 + nodeHeight * real k" if "k < length ?rows" for k
    proof -
      have "map position_y ?rows ! k = map (\<lambda>k. y0 + nodeHeight * real k) [0..<length ?rows] ! k"
        by (simp only: B)
      with that show ?thesis by simp
    qed
    with that have "position_y (?rows ! a) = y0 + nodeHeight * real a"
      "position_y (?rows ! b) = y0 + nodeHeight * real b"
      by simp_all
    moreover from that(1) have "real a + 1 \<le> real b" by simp
    then have "nodeHeight * (real a + 1) \<le> nodeHeight * real b"
      by (intro mult_left_mono) (simp_all add: nodeHeight_def)
    ultimately show ?thesis
      by (simp add: algebra_simps)
  qed
  from A B C show ?thesis
    unfolding Let_def by blast
qed

theorem leaf_rows_one_slot_apart_witness:
  "has_children (MindMapData ''C'' (Some [MindMapData ''D'' None, MindMapData ''E'' None]))
   \<and> nodeIdOf (Some ''n0'') 1 \<notin> {}
   \<and> \<not> has_children (MindMapData ''D'' None) \<and> \<not> has_children (MindMapData ''E'' None)
   \<and> take 2 (drop 1 (fst (generateMindMapNodesAndEdges nodeHeight levelWidth
         (MindMapData ''C'' (Some [MindMapData ''D'' None, MindMapData ''E'' None])) {} (Some ''n0'')
         [mkNode ''n0-0'' 1 300 0 ''B'' False False] [] 1 1 120))) =
       [mkNode ''n0-1-0'' 2 300 120 ''D'' False False, mkNode ''n0-1-1'' 2 300 240 ''E'' False False]
   \<and> map position_y (filter leafRow (fst (generateMindMapNodesAndEdges nodeHeight levelWidth
         scenarioTree {} None [] [] 0 0 0))) = [0, 120, 240]"
proof -
  let ?C = "MindMapData ''C'' (Some [MindMapData ''D'' None, MindMapData ''E'' None])"
  let ?ns = "[mkNode ''n0-0'' 1 300 0 ''B'' False False]"
  have h: "has_children ?C" "nodeIdOf (Some ''n0'') 1 \<notin> {}"
    "\<not> has_children (MindMapData ''D'' None)" "\<not> has_children (MindMapData ''E'' None)"
    by (simp_all add: has_children_def)
  then have leaves: "\<forall>i < length (the (children ?C)). \<not> (has_children (the (children ?C) ! i) \<and>
      nodeIdOf (Some (nodeIdOf (Some ''n0'') 1)) i \<notin> {})"
    by (simp add: less_Suc_eq)
  note inst = leaf_rows_one_slot_apart [of ?ns ?C "{}" "Some ''n0''" "[]" 1 1 120, unfolded Let_def]
  from inst h(1,2) leaves
  have "take (length (the (children ?C))) (drop (length ?ns)
      (fst (generateMindMapNodesAndEdges nodeHeight levelWidth ?C {} (Some ''n0'') ?ns [] 1 1 120))) =
    map (\<lambda>i. mkNode (nodeIdOf (Some (nodeIdOf (Some ''n0'') 1)) i) (1 + 1) levelWidth
           (120 + nodeHeight * real i) (data_text (the (children ?C) ! i))
           (has_children (the (children ?C) ! i))
           (nodeIdOf (Some (nodeIdOf (Some ''n0'') 1)) i \<in> {})) [0..<length (the (children ?C))]"
    by blast
  also have "\<dots> = [mkNode ''n0-1-0'' 2 300 120 ''D'' False False,
      mkNode ''n0-1-1'' 2 300 240 ''E'' False False]"
    by code_simp
  finally have A: "take 2 (drop 1 (fst (generateMindMapNodesAndEdges nodeHeight levelWidth ?C {}
      (Some ''n0'') ?ns [] 1 1 120))) =
    [mkNode ''n0-1-0'' 2 300 120 ''D'' False False, mkNode ''n0-1-1'' 2 300 240 ''E'' False False]"
    by (simp add: numeral_2_eq_2)
  have n: "length (filter leafRow (fst (generateMindMapNodesAndEdges nodeHeight levelWidth
         scenarioTree {} None [] [] 0 0 0))) = 3"
    by code_simp
  from leaf_rows_one_slot_apart [of "[]" scenarioTree "{}" None "[]" 0 0 0, unfolded Let_def]
  have "map position_y (filter leafRow (fst (generateMindMapNodesAndEdges nodeHeight levelWidth
         scenarioTree {} None [] [] 0 0 0))) = map (\<lambda>k. 0 + nodeHeight * real k) [0..<3]"
    by (simp add: n)
  also have "\<dots> = [0, 120, 240]"
    by code_simp
  finally show ?thesis
    using h A by simp
qed

subsection \<open>C9: adding a leaf id to the collapse set\<close>

text \<open>
  C9, as stated, asks for identical layouts. The node pushed for a leaf carries
  \<open>isCollapsed = collapsedNodes.has(nodeId)\<close>: for the tree of the single node \<open>A\<close>, whose
  id is \<open>n0\<close>, the layout from \<open>{n0}\<close> has \<open>isCollapsed = true\<close> on that node and the layout
  from the empty set has \<open>isCollapsed = false\<close>.
\<close>

theorem leaf_toggle_changes_layout:
  "subtreeAt (MindMapData ''A'' None) [] = Some (MindMapData ''A'' None)
   \<and> \<not> has_children (MindMapData ''A'' None)
   \<and> pathId [] = ''n0''
   \<and> mindMapLayout (MindMapData ''A'' None) (insert ''n0'' {}) \<noteq>
       mindMapLayout (MindMapData ''A'' None) {}
   \<and> map isCollapsed (fst (mindMapLayout (MindMapData ''A'' None) (insert ''n0'' {}))) = [True]
   \<and> map isCollapsed (fst (mindMapLayout (MindMapData ''A'' None) {})) = [False]"
proof -
  have a: "map isCollapsed (fst (mindMapLayout (MindMapData ''A'' None) (insert ''n0'' {}))) = [True]"
    by code_simp
  have b: "map isCollapsed (fst (mindMapLayout (MindMapData ''A'' None) {})) = [False]"
    by code_simp
  from a b have "mindMapLayout (MindMapData ''A'' None) (insert ''n0'' {}) \<noteq>
       mindMapLayout (MindMapData ''A'' None) {}"
    by auto
  with a b show ?thesis
    by (simp add: has_children_def pathId_enc)
qed

text \<open>
  C9, amended. For the id \<open>pathId p\<close> of a position \<open>p\<close> whose subtree has no children, the
  layout from the collapse set with that id added is the layout from the set without it,
  except that the node with that id, if the layout has one, has \<open>isCollapsed = true\<close>:
  the ids, positions, labels, \<open>hasChildren\<close> and class names of all nodes, the
  \<open>isCollapsed\<close> of every other node, and all edges are the same.
\<close>

theorem leaf_toggle_only_sets_isCollapsed:
  "subtreeAt d p = Some t \<and> \<not> has_children t \<longrightarrow>
     mindMapLayout d (insert (pathId p) S) =
       (map (markCollapsed (pathId p)) (fst (mindMapLayout d S)), snd (mindMapLayout d S))"
proof
  assume leaf: "subtreeAt d p = Some t \<and> \<not> has_children t"
  have "\<forall>q t'. subtreeAt d q = Some t' \<and> has_children t' \<longrightarrow>
      nodeIdOf None 0 @ enc q \<noteq> pathId p"
  proof (intro allI impI)
    fix q t' assume q: "subtreeAt d q = Some t' \<and> has_children t'"
    with leaf have "q \<noteq> p" by auto
    then have "pathId q \<noteq> pathId p"
      using pathId_inj by blast
    then show "nodeIdOf None 0 @ enc q \<noteq> pathId p"
      by (simp add: pathId_enc)
  qed
  from leaf_id_insert(1) [OF this, of nodeHeight levelWidth S "[]" "[]" 0 0]
  show "mindMapLayout d (insert (pathId p) S) =
       (map (markCollapsed (pathId p)) (fst (mindMapLayout d S)), snd (mindMapLayout d S))"
    by (simp add: mindMapLayout_def split: prod.splits)
qed

theorem leaf_toggle_only_sets_isCollapsed_witness:
  "subtreeAt scenarioTree [0] = Some (MindMapData ''B'' None)
   \<and> \<not> has_children (MindMapData ''B'' None)
   \<and> pathId [0] = ''n0-0''
   \<and> mindMapLayout scenarioTree (insert ''n0-0'' {}) =
       (map (markCollapsed ''n0-0'') (fst (mindMapLayout scenarioTree {})),
        snd (mindMapLayout scenarioTree {}))
   \<and> map isCollapsed (fst (mindMapLayout scenarioTree (insert ''n0-0'' {}))) =
       [True, False, False, False, False]"
proof -
  have s: "subtreeAt scenarioTree [0] = Some (MindMapData ''B'' None)"
    by (simp add: scenarioTree_def)
  have h: "\<not> has_children (MindMapData ''B'' None)"
    by (simp add: has_children_def)
  have i: "pathId [0] = ''n0-0''"
    by (simp add: pathId_enc toString.simps digit_def)
  have f: "map isCollapsed (fst (mindMapLayout scenarioTree (insert ''n0-0'' {}))) =
       [True, False, False, False, False]"
    by code_simp
  from leaf_toggle_only_sets_isCollapsed [of scenarioTree "[0]" "MindMapData ''B'' None" "{}"] s h i f
  show ?thesis
    by simp
qed

subsection \<open>C10: no node lies above the cursor of the call that emits it\<close>

text \<open>
  C10. In every call that a layout makes, the cursor \<open>yOffset\<close> is not negative, every node
  the call pushes (its own and those of its visible subtree: the nodes after the ones
  the array held at entry) has \<open>y \<ge> yOffset\<close>, and, when the call takes the first branch,
  each lookup \<open>childY\<close> of a child's row finds that child's node and returns the \<open>y\<close> of
  the node found, so the fallback to \<open>yOffset\<close> changes no midpoint. In the layout the
  component receives, every node has \<open>y \<ge> 0\<close>.
\<close>

theorem cursor_is_lower_bound:
  "(calls tree S (d, pid, acc, es, lvl, idx, y0) \<longrightarrow>
      0 \<le> y0
      \<and> (\<forall>n \<in> set (drop (length acc)
              (fst (generateMindMapNodesAndEdges nodeHeight levelWidth d S pid acc es lvl idx y0))).
            y0 \<le> position_y n)
      \<and> (has_children d \<and> nodeIdOf pid idx \<notin> S \<longrightarrow>
          (\<forall>i < length (the (children d)).
             \<exists>c. find (\<lambda>n. node_id n = nodeIdOf pid idx @ ''-'' @ toString i)
                    (fst (forEachChild nodeHeight levelWidth (the (children d)) S
                            (nodeIdOf pid idx) acc es (lvl + 1) 0 y0 [])) = Some c
               \<and> childY (fst (forEachChild nodeHeight levelWidth (the (children d)) S
                            (nodeIdOf pid idx) acc es (lvl + 1) 0 y0 []))
                    (nodeIdOf pid idx @ ''-'' @ toString i) y0 = position_y c)))
   \<and> (\<forall>n \<in> set (fst (mindMapLayout tree S)). 0 \<le> position_y n)"
proof -
  have nh: "0 \<le> nodeHeight"
    by (simp add: nodeHeight_def)
  have lower: "\<forall>n \<in> set (drop (length acc)
        (fst (generateMindMapNodesAndEdges nodeHeight levelWidth d S pid acc es lvl idx y0))).
      y0 \<le> position_y n"
    if "freshFor (nodeIdOf pid idx) acc" for d pid acc es lvl idx y0
    using y_lower(1) [OF that nh, of levelWidth d S es lvl y0] by auto
  have top: "\<forall>n \<in> set (fst (mindMapLayout tree S)). 0 \<le> position_y n"
    using lower [of None 0 "[]" tree "[]" 0 0] by (simp add: mindMapLayout_nodes freshFor_def)
  have exact: "\<exists>c. find (\<lambda>n. node_id n = nodeIdOf pid idx @ ''-'' @ toString i)
                    (fst (forEachChild nodeHeight levelWidth (the (children d)) S
                            (nodeIdOf pid idx) acc es (lvl + 1) 0 y0 [])) = Some c
               \<and> childY (fst (forEachChild nodeHeight levelWidth (the (children d)) S
                            (nodeIdOf pid idx) acc es (lvl + 1) 0 y0 []))
                    (nodeIdOf pid idx @ ''-'' @ toString i) y0 = position_y c"
    if fresh: "freshFor (nodeIdOf pid idx) acc" and y0: "0 \<le> y0"
      and i: "i < length (the (children d))" for i
  proof -
    let ?P = "nodeIdOf pid idx"
    let ?r = "forEachChild nodeHeight levelWidth (the (children d)) S ?P acc es (lvl + 1) 0 y0 []"
    from y_lower(2) [OF nodeIdOf_nonempty freshFrom_start [OF fresh] nh,
        of levelWidth "the (children d)" S es "lvl + 1" y0 "[]"]
    obtain new where new: "fst ?r = acc @ new"
      "\<forall>n \<in> set new. y0 \<le> position_y n"
      "\<forall>i. i < length (the (children d)) \<longrightarrow>
          (\<exists>c \<in> set new. find (\<lambda>n. node_id n = ?P @ enc [i]) (acc @ new) = Some c)"
      by auto
    from new(3) i obtain c where c: "c \<in> set new"
      "find (\<lambda>n. node_id n = ?P @ enc [i]) (fst ?r) = Some c"
      unfolding new(1) by blast
    with new(2) have "y0 \<le> position_y c" by simp
    with c(2) have "childY (fst ?r) (?P @ enc [i]) y0 = position_y c"
      using y0 by (rule childY_exact)
    with c(2) show ?thesis by simp
  qed
  show ?thesis
  proof (intro conjI impI)
    assume c: "calls tree S (d, pid, acc, es, lvl, idx, y0)"
    from calls_invariant [OF c] have f: "freshFor (nodeIdOf pid idx) acc" and y: "0 \<le> y0"
      by simp_all
    from y show "0 \<le> y0" .
    from f show "\<forall>n \<in> set (drop (length acc)
        (fst (generateMindMapNodesAndEdges nodeHeight levelWidth d S pid acc es lvl idx y0))).
      y0 \<le> position_y n"
      by (rule lower)
    from exact [OF f y]
    show "\<forall>i < length (the (children d)).
             \<exists>c. find (\<lambda>n. node_id n = nodeIdOf pid idx @ ''-'' @ toString i)
                    (fst (forEachChild nodeHeight levelWidth (the (children d)) S
                            (nodeIdOf pid idx) acc es (lvl + 1) 0 y0 [])) = Some c
               \<and> childY (fst (forEachChild nodeHeight levelWidth (the (children d)) S
                            (nodeIdOf pid idx) acc es (lvl + 1) 0 y0 []))
                    (nodeIdOf pid idx @ ''-'' @ toString i) y0 = position_y c"
      by blast
  next
    show "\<forall>n \<in> set (fst (mindMapLayout tree S)). 0 \<le> position_y n"
      by (rule top)
  qed
qed

theorem cursor_is_lower_bound_witness:
  "calls scenarioTree {}
     (MindMapData ''C'' (Some [MindMapData ''D'' None, MindMapData ''E'' None]), Some ''n0'',
      [mkNode ''n0-0'' 1 300 0 ''B'' False False],
      [\<lparr>edge_id = ''en0-n0-0'', source = ''n0'', target = ''n0-0''\<rparr>], 1, 1, 120)
   \<and> map position_y (drop 1 (fst (generateMindMapNodesAndEdges nodeHeight levelWidth
         (MindMapData ''C'' (Some [MindMapData ''D'' None, MindMapData ''E'' None])) {} (Some ''n0'')
         [mkNode ''n0-0'' 1 300 0 ''B'' False False]
         [\<lparr>edge_id = ''en0-n0-0'', source = ''n0'', target = ''n0-0''\<rparr>] 1 1 120))) =
       [120, 240, 180]
   \<and> list_all (\<lambda>n. 120 \<le> position_y n) (drop 1 (fst (generateMindMapNodesAndEdges nodeHeight
         levelWidth (MindMapData ''C'' (Some [MindMapData ''D'' None, MindMapData ''E'' None])) {}
         (Some ''n0'') [mkNode ''n0-0'' 1 300 0 ''B'' False False]
         [\<lparr>edge_id = ''en0-n0-0'', source = ''n0'', target = ''n0-0''\<rparr>] 1 1 120)))
   \<and> list_all (\<lambda>n. 0 \<le> position_y n) (fst (mindMapLayout scenarioTree {}))
   \<and> find (\<lambda>n. node_id n = ''n0-0'')
         (fst (forEachChild nodeHeight levelWidth (the (children scenarioTree)) {} ''n0'' [] []
            1 0 0 [])) = Some (mkNode ''n0-0'' 1 300 0 ''B'' False False)
   \<and> childY (fst (forEachChild nodeHeight levelWidth (the (children scenarioTree)) {} ''n0'' [] []
         1 0 0 [])) ''n0-0'' 0 = position_y (mkNode ''n0-0'' 1 300 0 ''B'' False False)"
proof -
  let ?C = "MindMapData ''C'' (Some [MindMapData ''D'' None, MindMapData ''E'' None])"
  let ?ns = "[mkNode ''n0-0'' 1 300 0 ''B'' False False]"
  let ?es = "[\<lparr>edge_id = ''en0-n0-0'', source = ''n0'', target = ''n0-0''\<rparr>]"
  have c0: "calls scenarioTree {} (scenarioTree, None, [], [], 0, 0, 0)"
    by (rule calls.top)
  have loop: "forEachChild nodeHeight levelWidth (take 1 (the (children scenarioTree))) {}
      (nodeIdOf None 0) [] [] (0 + 1) 0 0 [] = (?ns, ?es, 120, [120])"
    by code_simp
  have h: "has_children scenarioTree"
    by code_simp
  have l: "1 < length (the (children scenarioTree))"
    by code_simp
  have "calls scenarioTree {} (the (children scenarioTree) ! 1, Some (nodeIdOf None 0), ?ns, ?es,
      0 + 1, 1, 120)"
    using c0 h _ l loop by (rule calls.child) simp
  moreover have "the (children scenarioTree) ! 1 = ?C"
    by (simp add: scenarioTree_def)
  ultimately have c1: "calls scenarioTree {} (?C, Some ''n0'', ?ns, ?es, 1, 1, 120)"
    by simp
  have ys: "map position_y (drop 1 (fst (generateMindMapNodesAndEdges nodeHeight levelWidth
         ?C {} (Some ''n0'') ?ns ?es 1 1 120))) = [120, 240, 180]"
    by code_simp
  from cursor_is_lower_bound [of scenarioTree "{}" ?C "Some ''n0''" ?ns ?es 1 1 120] c1
  have "\<forall>n \<in> set (drop (length ?ns) (fst (generateMindMapNodesAndEdges nodeHeight levelWidth
         ?C {} (Some ''n0'') ?ns ?es 1 1 120))). 120 \<le> position_y n"
    and "\<forall>n \<in> set (fst (mindMapLayout scenarioTree {})). 0 \<le> position_y n"
    by blast+
  then have "list_all (\<lambda>n. 120 \<le> position_y n) (drop 1 (fst (generateMindMapNodesAndEdges
         nodeHeight levelWidth ?C {} (Some ''n0'') ?ns ?es 1 1 120)))"
    and "list_all (\<lambda>n. 0 \<le> position_y n) (fst (mindMapLayout scenarioTree {}))"
    by (simp_all add: list_all_iff)
  moreover have "find (\<lambda>n. node_id n = ''n0-0'')
         (fst (forEachChild nodeHeight levelWidth (the (children scenarioTree)) {} ''n0'' [] []
            1 0 0 [])) = Some (mkNode ''n0-0'' 1 300 0 ''B'' False False)"
    by code_simp
  moreover have "childY (fst (forEachChild nodeHeight levelWidth (the (children scenarioTree)) {}
         ''n0'' [] [] 1 0 0 [])) ''n0-0'' 0 = position_y (mkNode ''n0-0'' 1 300 0 ''B'' False False)"
    by code_simp
  ultimately show ?thesis
    using c1 ys by simp
qed

end
